theory Spec2Isabelle
  imports Main "HOL-Library.Sublist"
begin

section \<open>Data model (shared\_ptr.h, shared\_ptr.cpp)\<close>

text \<open>
  A raw object pointer \<^verbatim>\<open>T*\<close>: the null pointer, the address of an object allocated by
  the caller, or the address of the \<^verbatim>\<open>data\<close> member of the in-place control block with
  the given identity (what \<^verbatim>\<open>cb_inplace::get\<close> returns).
\<close>

datatype pointer = nullptr | Addr nat | Storage nat

text \<open>
  A deleter functor: \<^verbatim>\<open>std::default_delete<Y>\<close> or a caller-supplied one. The model
  records a call in the trace; what the call does to the object it is given is said
  where the destructor of \<^verbatim>\<open>shared_ptr\<close> is defined.
\<close>

datatype deleter = default_delete | Deleter nat

text \<open>
  An argument expression of \<^verbatim>\<open>make_shared\<close>: its value category and its value. The
  category decides which constructor of \<^verbatim>\<open>Y\<close> overload resolution selects.
\<close>

datatype category = lvalue | rvalue

type_synonym arg = "category \<times> int"

text \<open>
  The two classes derived from \<^verbatim>\<open>control_block\<close>: \<^verbatim>\<open>cb_separate\<close> stores the adopted
  pointer and the deleter; \<^verbatim>\<open>cb_inplace\<close> holds the object in its \<^verbatim>\<open>data\<close> member, here
  the argument expressions the constructor of \<^verbatim>\<open>Y\<close> was called with.
\<close>

datatype cb_variant = cb_separate pointer deleter | cb_inplace "arg list"

text \<open>
  \<^verbatim>\<open>struct control_block\<close>. The counters are \<^verbatim>\<open>size_t\<close>. A decrement is guarded by
  an assertion, which the model keeps as an error. An increment happens only when a
  pointer object is constructed, and every counted pointer object is alive and
  occupies storage of its own, so a counter never exceeds the number of live pointer
  objects (lemmas \<open>counters_bounded\<close> and \<open>general_counters_bounded\<close> below) and cannot
  reach the wrap-around of \<^verbatim>\<open>size_t\<close>; the counters are therefore natural numbers.
\<close>

record control_block =
  shared_cnt :: nat
  weak_cnt :: nat
  variant :: cb_variant

datatype error = bad_alloc | assertion_failed | use_after_free

text \<open>
  The observable effects, in the order they happen: \<^verbatim>\<open>new\<close> of a control block, the
  call of \<^verbatim>\<open>delete_object()\<close> on a block (with the hook it calls; what the hook does
  follows in the trace), \<^verbatim>\<open>delete cb\<close>, and the call \<^verbatim>\<open>d(ptr)\<close> of the catch handler of
  the adopting constructor.
\<close>

datatype hook = Deleter_call deleter pointer | Destructor_call pointer

datatype event =
    Ev_new nat cb_variant
  | Ev_delete_object nat hook
  | Ev_delete_cb nat
  | Ev_handler deleter pointer

text \<open>\<^verbatim>\<open>struct shared_ptr\<close> and \<^verbatim>\<open>struct weak_ptr\<close>: a raw pointer and a control-block
  pointer (\<open>None\<close> is the null pointer, \<open>Some c\<close> points to the block with identity \<open>c\<close>).\<close>

record shared_ptr =
  ptr :: pointer
  cb :: "nat option"

record weak_ptr =
  wptr :: pointer
  wcb :: "nat option"

text \<open>
  A pointer object that is a data member of a managed object (\<^verbatim>\<open>struct Node {
  weak_ptr<Node> self; shared_ptr<Node> next; }\<close>). The destructor of the managed
  object destroys it.
\<close>

datatype member = Shared_member shared_ptr | Weak_member weak_ptr

text \<open>
  The program state: the allocated control blocks, the identity the next allocation
  gets (identities are never reused, so that each allocation can be told apart), the
  trace of effects, the live \<^verbatim>\<open>shared_ptr\<close> and \<^verbatim>\<open>weak_ptr\<close> objects that are variables
  of the program (temporaries included while they live), each named by its position
  in its list, and the live pointer objects that are members of managed objects, each
  with the identity of the control block that manages the object it lies in, in the
  order of their construction.
\<close>

record state =
  heap :: "nat \<Rightarrow> control_block option"
  next_cb :: nat
  trace :: "event list"
  owners :: "shared_ptr list"
  observers :: "weak_ptr list"
  members :: "(nat \<times> member) list"

type_synonym 'a result = "(error \<times> state) + ('a \<times> state)"

type_synonym outcome = "(error \<times> state) + state"

definition init :: state where
  "init = \<lparr>heap = (\<lambda>c. None), next_cb = 0, trace = [], owners = [], observers = [],
             members = []\<rparr>"

section \<open>control\_block\<close>

definition control_block_ctor :: "cb_variant \<Rightarrow> control_block" where
  "control_block_ctor v = \<lparr>shared_cnt = 0, weak_cnt = 0, variant = v\<rparr>"

definition release_shared :: "control_block \<Rightarrow> error + control_block" where
  "release_shared b =
     (if 0 < shared_cnt b then Inr (b\<lparr>shared_cnt := shared_cnt b - 1\<rparr>)
      else Inl assertion_failed)"

definition release_weak :: "control_block \<Rightarrow> error + control_block" where
  "release_weak b =
     (if 0 < weak_cnt b then Inr (b\<lparr>weak_cnt := weak_cnt b - 1\<rparr>)
      else Inl assertion_failed)"

definition inc_shared :: "control_block \<Rightarrow> control_block" where
  "inc_shared b = b\<lparr>shared_cnt := shared_cnt b + 1\<rparr>"

definition inc_weak :: "control_block \<Rightarrow> control_block" where
  "inc_weak b = b\<lparr>weak_cnt := weak_cnt b + 1\<rparr>"

definition get_shared_cnt :: "control_block \<Rightarrow> nat" where
  "get_shared_cnt b = shared_cnt b"

definition get_weak_cnt :: "control_block \<Rightarrow> nat" where
  "get_weak_cnt b = weak_cnt b"

text \<open>\<^verbatim>\<open>cb_inplace::get\<close>: the address of the embedded storage of block \<open>c\<close>.\<close>

definition cb_inplace_get :: "nat \<Rightarrow> pointer" where
  "cb_inplace_get c = Storage c"

text \<open>What \<^verbatim>\<open>delete_object()\<close> of the block \<open>c\<close> does, by variant: \<^verbatim>\<open>cb_separate\<close> calls
  the stored deleter on the stored pointer, \<^verbatim>\<open>cb_inplace\<close> calls the destructor of the
  object in its storage.\<close>

definition hook_of :: "nat \<Rightarrow> cb_variant \<Rightarrow> hook" where
  "hook_of c v =
     (case v of
        cb_separate p d \<Rightarrow> Deleter_call d p
      | cb_inplace as \<Rightarrow> Destructor_call (cb_inplace_get c))"

text \<open>The assertion of \<^verbatim>\<open>delete_object()\<close>, and the hook it goes on to call.\<close>

definition delete_object :: "nat \<Rightarrow> control_block \<Rightarrow> error + hook" where
  "delete_object c b =
     (if get_shared_cnt b = 0 then Inr (hook_of c (variant b)) else Inl assertion_failed)"

text \<open>The object a hook destroys; the null pointer when there is none (\<^verbatim>\<open>d(nullptr)\<close>).\<close>

definition object_of :: "hook \<Rightarrow> pointer" where
  "object_of h = (case h of Deleter_call d p \<Rightarrow> p | Destructor_call p \<Rightarrow> p)"

text \<open>
  A parameter of a function is a named variable, so the expression \<^verbatim>\<open>args\<close> in
  the body is an lvalue whatever the caller passed; \<^verbatim>\<open>std::forward<A>(a)\<close> restores the
  category the template parameter \<^verbatim>\<open>A\<close> was deduced from.
\<close>

definition named :: "arg \<Rightarrow> arg" where
  "named a = (lvalue, snd a)"

definition forward :: "category \<Rightarrow> arg \<Rightarrow> arg" where
  "forward deduced a = (deduced, snd a)"

text \<open>The constructor template of \<^verbatim>\<open>cb_inplace\<close>: \<^verbatim>\<open>Args\<close> is deduced from the argument
  expressions it receives, each parameter is a named variable, and
  \<^verbatim>\<open>new (&data) Y(std::forward<Args>(args)...)\<close> constructs the object.\<close>

definition cb_inplace_ctor :: "arg list \<Rightarrow> cb_variant" where
  "cb_inplace_ctor args = cb_inplace (map (\<lambda>a. forward (fst a) (named a)) args)"

text \<open>\<^verbatim>\<open>new\<close> of a control block. Whether the allocation succeeds is decided by the
  environment: \<open>ok\<close>. On failure (\<^verbatim>\<open>std::bad_alloc\<close>) nothing is allocated.\<close>

definition new_cb :: "bool \<Rightarrow> cb_variant \<Rightarrow> state \<Rightarrow> (nat \<times> state) option" where
  "new_cb ok v s =
     (if ok
      then Some (next_cb s,
                 s\<lparr>heap := (heap s)(next_cb s \<mapsto> control_block_ctor v),
                   next_cb := Suc (next_cb s),
                   trace := trace s @ [Ev_new (next_cb s) v]\<rparr>)
      else None)"

text \<open>\<^verbatim>\<open>delete cb\<close>.\<close>

definition delete_cb :: "nat \<Rightarrow> state \<Rightarrow> state" where
  "delete_cb c s = s\<lparr>heap := (heap s)(c := None), trace := trace s @ [Ev_delete_cb c]\<rparr>"

text \<open>\<^verbatim>\<open>cb->inc_shared()\<close> and \<^verbatim>\<open>cb->inc_weak()\<close> through a non-null pointer; a pointer to
  a deleted block is a use after free.\<close>

definition cb_inc_shared :: "nat \<Rightarrow> state \<Rightarrow> outcome" where
  "cb_inc_shared c s =
     (case heap s c of
        None \<Rightarrow> Inl (use_after_free, s)
      | Some b \<Rightarrow> Inr (s\<lparr>heap := (heap s)(c \<mapsto> inc_shared b)\<rparr>))"

definition cb_inc_weak :: "nat \<Rightarrow> state \<Rightarrow> outcome" where
  "cb_inc_weak c s =
     (case heap s c of
        None \<Rightarrow> Inl (use_after_free, s)
      | Some b \<Rightarrow> Inr (s\<lparr>heap := (heap s)(c \<mapsto> inc_weak b)\<rparr>))"

section \<open>shared\_ptr\<close>

definition shared_ptr_default :: shared_ptr where
  "shared_ptr_default = \<lparr>ptr = nullptr, cb = None\<rparr>"

text \<open>\<^verbatim>\<open>shared_ptr(Y* ptr, Deleter d)\<close>, a function try block: when \<^verbatim>\<open>new\<close> throws, the
  handler calls \<^verbatim>\<open>d(ptr)\<close> and rethrows.\<close>

definition shared_ptr_adopt :: "pointer \<Rightarrow> deleter \<Rightarrow> bool \<Rightarrow> state \<Rightarrow> shared_ptr result" where
  "shared_ptr_adopt p d ok s =
     (case new_cb ok (cb_separate p d) s of
        None \<Rightarrow> Inl (bad_alloc, s\<lparr>trace := trace s @ [Ev_handler d p]\<rparr>)
      | Some (c, s1) \<Rightarrow>
          (case cb_inc_shared c s1 of
             Inl e \<Rightarrow> Inl e
           | Inr s2 \<Rightarrow> Inr (\<lparr>ptr = p, cb = Some c\<rparr>, s2)))"

text \<open>\<^verbatim>\<open>shared_ptr(const shared_ptr<Y>& r, T* ptr)\<close>, the aliasing constructor.\<close>

definition shared_ptr_alias :: "shared_ptr \<Rightarrow> pointer \<Rightarrow> state \<Rightarrow> shared_ptr result" where
  "shared_ptr_alias r p s =
     (case cb r of
        None \<Rightarrow> Inr (\<lparr>ptr = p, cb = None\<rparr>, s)
      | Some c \<Rightarrow>
          (case cb_inc_shared c s of
             Inl e \<Rightarrow> Inl e
           | Inr s1 \<Rightarrow> Inr (\<lparr>ptr = p, cb = Some c\<rparr>, s1)))"

text \<open>The copy constructors delegate to the aliasing constructor with \<^verbatim>\<open>r.ptr\<close>.\<close>

definition shared_ptr_copy :: "shared_ptr \<Rightarrow> state \<Rightarrow> shared_ptr result" where
  "shared_ptr_copy r s = shared_ptr_alias r (ptr r) s"

text \<open>The move constructors: the new object, and \<open>r\<close> as they leave it.\<close>

definition shared_ptr_move :: "shared_ptr \<Rightarrow> shared_ptr \<times> shared_ptr" where
  "shared_ptr_move r = (\<lparr>ptr = ptr r, cb = cb r\<rparr>, r\<lparr>ptr := nullptr, cb := None\<rparr>)"

text \<open>\<^verbatim>\<open>swap\<close>: the two objects afterwards, \<^verbatim>\<open>*this\<close> first.\<close>

definition shared_ptr_swap :: "shared_ptr \<Rightarrow> shared_ptr \<Rightarrow> shared_ptr \<times> shared_ptr" where
  "shared_ptr_swap this r =
     (this\<lparr>ptr := ptr r, cb := cb r\<rparr>, r\<lparr>ptr := ptr this, cb := cb this\<rparr>)"

definition get :: "shared_ptr \<Rightarrow> pointer" where
  "get p = ptr p"

definition use_count :: "shared_ptr \<Rightarrow> state \<Rightarrow> error + nat" where
  "use_count p s =
     (case cb p of
        None \<Rightarrow> Inr 0
      | Some c \<Rightarrow>
          (case heap s c of
             None \<Rightarrow> Inl use_after_free
           | Some b \<Rightarrow> Inr (get_shared_cnt b)))"

definition operator_bool :: "shared_ptr \<Rightarrow> bool" where
  "operator_bool p = (get p \<noteq> nullptr)"

text \<open>\<^verbatim>\<open>make_shared\<close>: \<^verbatim>\<open>new cb_inplace<Y>(args...)\<close> passes the parameters by name.\<close>

definition make_shared :: "arg list \<Rightarrow> bool \<Rightarrow> state \<Rightarrow> shared_ptr result" where
  "make_shared args ok s =
     (case new_cb ok (cb_inplace_ctor (map named args)) s of
        None \<Rightarrow> Inl (bad_alloc, s)
      | Some (c, s1) \<Rightarrow>
          (case cb_inc_shared c s1 of
             Inl e \<Rightarrow> Inl e
           | Inr s2 \<Rightarrow> Inr (\<lparr>ptr = cb_inplace_get c, cb = Some c\<rparr>, s2)))"

section \<open>weak\_ptr\<close>

definition weak_ptr_default :: weak_ptr where
  "weak_ptr_default = \<lparr>wptr = nullptr, wcb = None\<rparr>"

text \<open>The copy constructors and the constructor from a \<^verbatim>\<open>shared_ptr\<close> have one body:
  take both fields, and \<^verbatim>\<open>inc_weak\<close> when there is a block.\<close>

definition weak_ptr_ctor :: "pointer \<Rightarrow> nat option \<Rightarrow> state \<Rightarrow> weak_ptr result" where
  "weak_ptr_ctor p k s =
     (case k of
        None \<Rightarrow> Inr (\<lparr>wptr = p, wcb = None\<rparr>, s)
      | Some c \<Rightarrow>
          (case cb_inc_weak c s of
             Inl e \<Rightarrow> Inl e
           | Inr s1 \<Rightarrow> Inr (\<lparr>wptr = p, wcb = Some c\<rparr>, s1)))"

definition weak_ptr_copy :: "weak_ptr \<Rightarrow> state \<Rightarrow> weak_ptr result" where
  "weak_ptr_copy r s = weak_ptr_ctor (wptr r) (wcb r) s"

definition weak_ptr_from_shared :: "shared_ptr \<Rightarrow> state \<Rightarrow> weak_ptr result" where
  "weak_ptr_from_shared r s = weak_ptr_ctor (ptr r) (cb r) s"

definition weak_ptr_move :: "weak_ptr \<Rightarrow> weak_ptr \<times> weak_ptr" where
  "weak_ptr_move r = (\<lparr>wptr = wptr r, wcb = wcb r\<rparr>, r\<lparr>wptr := nullptr, wcb := None\<rparr>)"

text \<open>
  \<^verbatim>\<open>~weak_ptr()\<close>. Nothing runs between \<^verbatim>\<open>release_weak()\<close> and the two reads of the
  counters, so they read the block as just written. The writes to the fields of the
  dying object are left out.
\<close>

definition weak_ptr_dtor :: "weak_ptr \<Rightarrow> state \<Rightarrow> outcome" where
  "weak_ptr_dtor w s =
     (case wcb w of
        None \<Rightarrow> Inr s
      | Some c \<Rightarrow>
          (case heap s c of
             None \<Rightarrow> Inl (use_after_free, s)
           | Some b \<Rightarrow>
               (case release_weak b of
                  Inl e \<Rightarrow> Inl (e, s)
                | Inr b1 \<Rightarrow>
                    let s1 = s\<lparr>heap := (heap s)(c \<mapsto> b1)\<rparr> in
                    if get_shared_cnt b1 = 0 \<and> get_weak_cnt b1 = 0
                    then Inr (delete_cb c s1)
                    else Inr s1)))"

definition weak_ptr_swap :: "weak_ptr \<Rightarrow> weak_ptr \<Rightarrow> weak_ptr \<times> weak_ptr" where
  "weak_ptr_swap this r =
     (this\<lparr>wptr := wptr r, wcb := wcb r\<rparr>, r\<lparr>wptr := wptr this, wcb := wcb this\<rparr>)"

text \<open>\<^verbatim>\<open>lock()\<close>; the private constructor \<^verbatim>\<open>shared_ptr(Y* ptr, control_block* cb)\<close> only
  stores both fields.\<close>

definition lock :: "weak_ptr \<Rightarrow> state \<Rightarrow> shared_ptr result" where
  "lock w s =
     (case wcb w of
        None \<Rightarrow> Inr (shared_ptr_default, s)
      | Some c \<Rightarrow>
          (case heap s c of
             None \<Rightarrow> Inl (use_after_free, s)
           | Some b \<Rightarrow>
               if get_shared_cnt b = 0 then Inr (shared_ptr_default, s)
               else Inr (\<lparr>ptr = wptr w, cb = Some c\<rparr>,
                         s\<lparr>heap := (heap s)(c \<mapsto> inc_shared b)\<rparr>)))"

section \<open>The destructor of shared\_ptr\<close>

text \<open>
  The members of the object that block \<open>c\<close> manages, oldest first.
\<close>

definition members_of :: "nat \<Rightarrow> state \<Rightarrow> member list" where
  "members_of c s = map snd (filter (\<lambda>m. fst m = c) (members s))"

text \<open>
  \<^verbatim>\<open>~shared_ptr()\<close>. When the counter has reached zero, \<^verbatim>\<open>cb->delete_object()\<close> calls the
  hook, and the hook is code of the managed type: the destructor \<^verbatim>\<open>~Y()\<close>, or the
  deleter, which destroys the object it is given as \<^verbatim>\<open>std::default_delete\<close> does. The
  destruction of the object runs the destructors of its members, last constructed
  first, and these are destructors of this library again: \<open>destroy_members\<close>. A call
  \<^verbatim>\<open>d(nullptr)\<close> finds no object. When the hook has returned, the destructor reads both
  counters through \<^verbatim>\<open>cb\<close> once more; a block that a destructor run by the hook has
  deleted in the meantime is read after it was freed. The writes to the fields of the
  dying object are left out (where the dying object is a \<^verbatim>\<open>weak_ptr\<close> that lies in the
  storage of the block it has just deleted, the write \<^verbatim>\<open>cb = nullptr\<close> is itself a use
  after free; it happens inside the hook of that block, and the model reports the
  read that follows the hook). Other code that a destructor or a deleter of the
  managed type might run, such as a copy of the very pointer that is being destroyed,
  is outside the model.
\<close>

function shared_ptr_dtor :: "shared_ptr \<Rightarrow> state \<Rightarrow> outcome"
  and destroy_members :: "member list \<Rightarrow> state \<Rightarrow> outcome"
  and member_dtor :: "member \<Rightarrow> state \<Rightarrow> outcome" where
  "shared_ptr_dtor p s =
     (case cb p of
        None \<Rightarrow> Inr s
      | Some c \<Rightarrow>
          (case heap s c of
             None \<Rightarrow> Inl (use_after_free, s)
           | Some b \<Rightarrow>
               (case release_shared b of
                  Inl e \<Rightarrow> Inl (e, s)
                | Inr b1 \<Rightarrow>
                    (case (if get_shared_cnt b1 = 0
                           then (case delete_object c b1 of
                                   Inl e \<Rightarrow> Inl (e, s\<lparr>heap := (heap s)(c \<mapsto> b1)\<rparr>)
                                 | Inr h \<Rightarrow>
                                     if object_of h = nullptr
                                     then Inr (s\<lparr>heap := (heap s)(c \<mapsto> b1),
                                                 trace := trace s @ [Ev_delete_object c h]\<rparr>)
                                     else destroy_members (rev (members_of c s))
                                            (s\<lparr>heap := (heap s)(c \<mapsto> b1),
                                               trace := trace s @ [Ev_delete_object c h],
                                               members := filter (\<lambda>m. fst m \<noteq> c) (members s)\<rparr>))
                           else Inr (s\<lparr>heap := (heap s)(c \<mapsto> b1)\<rparr>)) of
                       Inl e \<Rightarrow> Inl e
                     | Inr s2 \<Rightarrow>
                         (case heap s2 c of
                            None \<Rightarrow> Inl (use_after_free, s2)
                          | Some b2 \<Rightarrow>
                              if get_shared_cnt b2 = 0 \<and> get_weak_cnt b2 = 0
                              then Inr (delete_cb c s2)
                              else Inr s2)))))"
| "destroy_members [] s = Inr s"
| "destroy_members (m # ms) s =
     (case member_dtor m s of
        Inl e \<Rightarrow> Inl e
      | Inr s1 \<Rightarrow> destroy_members ms s1)"
| "member_dtor (Shared_member p) s = shared_ptr_dtor p s"
| "member_dtor (Weak_member w) s = weak_ptr_dtor w s"
  by pat_completeness auto

text \<open>
  Termination: a hook takes the members of its object out of the state before it
  destroys them, and no destructor adds a member.
\<close>

lemma weak_ptr_dtor_members:
  "weak_ptr_dtor w s = Inr s' \<Longrightarrow> members s' = members s"
  by (auto simp: weak_ptr_dtor_def delete_cb_def Let_def split: option.splits sum.splits if_splits)

lemma dtor_members_le:
  "shared_ptr_dtor_destroy_members_member_dtor_dom (Inl (p, s)) \<Longrightarrow>
     shared_ptr_dtor p s = Inr s' \<Longrightarrow> length (members s') \<le> length (members s)"
  "shared_ptr_dtor_destroy_members_member_dtor_dom (Inr (Inl (ms, s))) \<Longrightarrow>
     destroy_members ms s = Inr s' \<Longrightarrow> length (members s') \<le> length (members s)"
  "shared_ptr_dtor_destroy_members_member_dtor_dom (Inr (Inr (m, s))) \<Longrightarrow>
     member_dtor m s = Inr s' \<Longrightarrow> length (members s') \<le> length (members s)"
proof (induction arbitrary: s' and s' and s'
    rule: shared_ptr_dtor_destroy_members_member_dtor.pinduct)
  case (1 p s)
  have IH: "length (members s2) \<le> length (members s)"
    if "cb p = Some c" "heap s c = Some b" "release_shared b = Inr b1" "get_shared_cnt b1 = 0"
      "delete_object c b1 = Inr h" "object_of h \<noteq> nullptr"
      "destroy_members (rev (members_of c s))
         (s\<lparr>heap := (heap s)(c \<mapsto> b1), trace := trace s @ [Ev_delete_object c h],
            members := filter (\<lambda>m. fst m \<noteq> c) (members s)\<rparr>) = Inr s2"
    for c b b1 h s2
  proof -
    have "length (members s2) \<le> length (filter (\<lambda>m. fst m \<noteq> c) (members s))"
      using "1.IH"[OF that] by simp
    also have "\<dots> \<le> length (members s)" by simp
    finally show ?thesis .
  qed
  show ?case
    using "1.prems" IH
    by (auto simp: shared_ptr_dtor.psimps[OF "1.hyps"] delete_cb_def
        split: option.splits sum.splits if_splits)
next
  case (2 s)
  then show ?case by (simp add: destroy_members.psimps)
next
  case (3 m ms s)
  then show ?case
    by (auto simp: destroy_members.psimps split: sum.splits intro: order_trans)
next
  case (4 p s)
  then show ?case by (simp add: member_dtor.psimps)
next
  case (5 w s)
  then show ?case by (simp add: member_dtor.psimps weak_ptr_dtor_members)
qed

termination shared_ptr_dtor
proof (relation "inv_image (less_than <*lex*> less_than)
    (\<lambda>x. case x of
       Inl (p, s) \<Rightarrow> (length (members s), 1)
     | Inr (Inl (ms, s)) \<Rightarrow> (length (members s), 3 * length ms)
     | Inr (Inr (m, s)) \<Rightarrow> (length (members s), 2))", goal_cases)
  case 1
  then show ?case by (intro wf_inv_image wf_lex_prod wf_less_than)
next
  case (2 p s c b b1 h)
  show ?case
  proof (cases "members_of c s = []")
    case True
    then have "filter (\<lambda>m. fst m \<noteq> c) (members s) = members s"
      by (auto simp: members_of_def filter_empty_conv filter_id_conv)
    then show ?thesis using True by simp
  next
    case False
    then have "length (filter (\<lambda>m. fst m \<noteq> c) (members s)) < length (members s)"
      by (auto simp: members_of_def filter_empty_conv intro!: length_filter_less)
    then show ?thesis by simp
  qed
next
  case (3 m ms s)
  then show ?case by simp
next
  case (4 m ms s s1)
  then show ?case using dtor_members_le(3)[OF 4(2) 4(1)] by auto
next
  case (5 p s)
  then show ?case by simp
qed

declare shared_ptr_dtor.simps [simp del]

section \<open>Statements over the live pointer objects\<close>

text \<open>
  A statement of a client program acts on the live objects that are its variables. A
  constructor adds its object at the end of the list; a destructor removes its
  object. A temporary is an object like any other: it is constructed last and
  destroyed at the end of its statement.
\<close>

definition remove_nth :: "nat \<Rightarrow> 'a list \<Rightarrow> 'a list" where
  "remove_nth i xs = take i xs @ drop (Suc i) xs"

definition seq :: "outcome \<Rightarrow> (state \<Rightarrow> outcome) \<Rightarrow> outcome" where
  "seq r f = (case r of Inl e \<Rightarrow> Inl e | Inr s \<Rightarrow> f s)"

definition new_owner :: "shared_ptr result \<Rightarrow> outcome" where
  "new_owner r = (case r of Inl e \<Rightarrow> Inl e | Inr (p, s) \<Rightarrow> Inr (s\<lparr>owners := owners s @ [p]\<rparr>))"

definition new_observer :: "weak_ptr result \<Rightarrow> outcome" where
  "new_observer r =
     (case r of Inl e \<Rightarrow> Inl e | Inr (w, s) \<Rightarrow> Inr (s\<lparr>observers := observers s @ [w]\<rparr>))"

definition sp_default :: "state \<Rightarrow> outcome" where
  "sp_default s = new_owner (Inr (shared_ptr_default, s))"

definition sp_adopt :: "pointer \<Rightarrow> deleter \<Rightarrow> bool \<Rightarrow> state \<Rightarrow> outcome" where
  "sp_adopt p d ok s = new_owner (shared_ptr_adopt p d ok s)"

definition sp_make :: "arg list \<Rightarrow> bool \<Rightarrow> state \<Rightarrow> outcome" where
  "sp_make args ok s = new_owner (make_shared args ok s)"

definition sp_alias :: "nat \<Rightarrow> pointer \<Rightarrow> state \<Rightarrow> outcome" where
  "sp_alias i p s = new_owner (shared_ptr_alias (owners s ! i) p s)"

definition sp_copy :: "nat \<Rightarrow> state \<Rightarrow> outcome" where
  "sp_copy i s = new_owner (shared_ptr_copy (owners s ! i) s)"

definition sp_move :: "nat \<Rightarrow> state \<Rightarrow> outcome" where
  "sp_move i s =
     (case shared_ptr_move (owners s ! i) of
        (n, r) \<Rightarrow> Inr (s\<lparr>owners := (owners s)[i := r] @ [n]\<rparr>))"

definition sp_dtor :: "nat \<Rightarrow> state \<Rightarrow> outcome" where
  "sp_dtor i s =
     (case shared_ptr_dtor (owners s ! i) s of
        Inl e \<Rightarrow> Inl e
      | Inr s1 \<Rightarrow> Inr (s1\<lparr>owners := remove_nth i (owners s1)\<rparr>))"

definition sp_swap :: "nat \<Rightarrow> nat \<Rightarrow> state \<Rightarrow> outcome" where
  "sp_swap i j s =
     (case shared_ptr_swap (owners s ! i) (owners s ! j) of
        (a, b) \<Rightarrow> Inr (s\<lparr>owners := (owners s)[i := a, j := b]\<rparr>))"

text \<open>\<^verbatim>\<open>shared_ptr(...).swap(*this);\<close> where \<open>r\<close> is the outcome of constructing the
  temporary, \<open>i\<close> is \<^verbatim>\<open>*this\<close>: the temporary is the last object, it is swapped with
  \<^verbatim>\<open>*this\<close> and destroyed at the end of the statement.\<close>

definition sp_swap_temporary :: "nat \<Rightarrow> outcome \<Rightarrow> outcome" where
  "sp_swap_temporary i r =
     seq r (\<lambda>s1. seq (sp_swap (length (owners s1) - 1) i s1) (sp_dtor (length (owners s1) - 1)))"

definition wp_default :: "state \<Rightarrow> outcome" where
  "wp_default s = new_observer (Inr (weak_ptr_default, s))"

definition wp_copy :: "nat \<Rightarrow> state \<Rightarrow> outcome" where
  "wp_copy i s = new_observer (weak_ptr_copy (observers s ! i) s)"

definition wp_from_shared :: "nat \<Rightarrow> state \<Rightarrow> outcome" where
  "wp_from_shared i s = new_observer (weak_ptr_from_shared (owners s ! i) s)"

definition wp_move :: "nat \<Rightarrow> state \<Rightarrow> outcome" where
  "wp_move i s =
     (case weak_ptr_move (observers s ! i) of
        (n, r) \<Rightarrow> Inr (s\<lparr>observers := (observers s)[i := r] @ [n]\<rparr>))"

definition wp_dtor :: "nat \<Rightarrow> state \<Rightarrow> outcome" where
  "wp_dtor i s =
     (case weak_ptr_dtor (observers s ! i) s of
        Inl e \<Rightarrow> Inl e
      | Inr s1 \<Rightarrow> Inr (s1\<lparr>observers := remove_nth i (observers s1)\<rparr>))"

definition wp_swap :: "nat \<Rightarrow> nat \<Rightarrow> state \<Rightarrow> outcome" where
  "wp_swap i j s =
     (case weak_ptr_swap (observers s ! i) (observers s ! j) of
        (a, b) \<Rightarrow> Inr (s\<lparr>observers := (observers s)[i := a, j := b]\<rparr>))"

definition wp_swap_temporary :: "nat \<Rightarrow> outcome \<Rightarrow> outcome" where
  "wp_swap_temporary i r =
     seq r (\<lambda>s1. seq (wp_swap (length (observers s1) - 1) i s1)
                      (wp_dtor (length (observers s1) - 1)))"

definition wp_lock :: "nat \<Rightarrow> state \<Rightarrow> outcome" where
  "wp_lock i s = new_owner (lock (observers s ! i) s)"

text \<open>
  The statements. Indices name live objects; \<open>bool\<close> is whether \<^verbatim>\<open>new\<close> succeeds.
  \<^item> \<open>Sp_default\<close>: \<^verbatim>\<open>shared_ptr()\<close>, \<^verbatim>\<open>shared_ptr(nullptr)\<close>;
  \<^item> \<open>Sp_adopt p d ok\<close>: \<^verbatim>\<open>shared_ptr(p, d)\<close>, and \<^verbatim>\<open>shared_ptr(p)\<close> with \<open>default_delete\<close>;
  \<^item> \<open>Sp_make args ok\<close>: \<^verbatim>\<open>make_shared<Y>(args...)\<close>;
  \<^item> \<open>Sp_alias i p\<close>, \<open>Sp_copy i\<close>, \<open>Sp_move i\<close>: a new object from object \<open>i\<close>;
  \<^item> \<open>Sp_dtor i\<close>: the destructor of object \<open>i\<close>;
  \<^item> \<open>Sp_assign i j\<close>, \<open>Sp_move_assign i j\<close>: \<^verbatim>\<open>operator=\<close> on object \<open>i\<close> from object \<open>j\<close>
    (nothing happens when \<^verbatim>\<open>this == &r\<close>);
  \<^item> \<open>Sp_reset i\<close>, \<open>Sp_reset_ptr i p d ok\<close>: \<^verbatim>\<open>reset()\<close>, \<^verbatim>\<open>reset(p, d)\<close> and \<^verbatim>\<open>reset(p)\<close>;
  \<^item> \<open>Sp_swap i j\<close>: \<^verbatim>\<open>swap\<close>;
  \<^item> \<open>Wp_...\<close>: the same for \<^verbatim>\<open>weak_ptr\<close>; \<open>Wp_from_shared i\<close> and \<open>Wp_assign_shared i j\<close>
    take the \<^verbatim>\<open>shared_ptr\<close> object \<open>i\<close> (\<open>j\<close>); \<open>Wp_lock i\<close> is \<^verbatim>\<open>lock()\<close> on observer \<open>i\<close>,
    its result a new \<^verbatim>\<open>shared_ptr\<close> object.
  A statement that names an object that does not exist is no statement of a program
  and does nothing.
\<close>

datatype op =
    Sp_default
  | Sp_adopt pointer deleter bool
  | Sp_make "arg list" bool
  | Sp_alias nat pointer
  | Sp_copy nat
  | Sp_move nat
  | Sp_dtor nat
  | Sp_assign nat nat
  | Sp_move_assign nat nat
  | Sp_reset nat
  | Sp_reset_ptr nat pointer deleter bool
  | Sp_swap nat nat
  | Wp_default
  | Wp_copy nat
  | Wp_from_shared nat
  | Wp_move nat
  | Wp_dtor nat
  | Wp_assign nat nat
  | Wp_assign_shared nat nat
  | Wp_move_assign nat nat
  | Wp_reset nat
  | Wp_swap nat nat
  | Wp_lock nat

fun exec :: "op \<Rightarrow> state \<Rightarrow> outcome" where
  "exec Sp_default s = sp_default s"
| "exec (Sp_adopt p d ok) s = sp_adopt p d ok s"
| "exec (Sp_make args ok) s = sp_make args ok s"
| "exec (Sp_alias i p) s = (if i < length (owners s) then sp_alias i p s else Inr s)"
| "exec (Sp_copy i) s = (if i < length (owners s) then sp_copy i s else Inr s)"
| "exec (Sp_move i) s = (if i < length (owners s) then sp_move i s else Inr s)"
| "exec (Sp_dtor i) s = (if i < length (owners s) then sp_dtor i s else Inr s)"
| "exec (Sp_assign i j) s =
     (if i < length (owners s) \<and> j < length (owners s) \<and> i \<noteq> j
      then sp_swap_temporary i (sp_copy j s) else Inr s)"
| "exec (Sp_move_assign i j) s =
     (if i < length (owners s) \<and> j < length (owners s) \<and> i \<noteq> j
      then sp_swap_temporary i (sp_move j s) else Inr s)"
| "exec (Sp_reset i) s =
     (if i < length (owners s) then sp_swap_temporary i (sp_default s) else Inr s)"
| "exec (Sp_reset_ptr i p d ok) s =
     (if i < length (owners s) then sp_swap_temporary i (sp_adopt p d ok s) else Inr s)"
| "exec (Sp_swap i j) s =
     (if i < length (owners s) \<and> j < length (owners s) then sp_swap i j s else Inr s)"
| "exec Wp_default s = wp_default s"
| "exec (Wp_copy i) s = (if i < length (observers s) then wp_copy i s else Inr s)"
| "exec (Wp_from_shared i) s = (if i < length (owners s) then wp_from_shared i s else Inr s)"
| "exec (Wp_move i) s = (if i < length (observers s) then wp_move i s else Inr s)"
| "exec (Wp_dtor i) s = (if i < length (observers s) then wp_dtor i s else Inr s)"
| "exec (Wp_assign i j) s =
     (if i < length (observers s) \<and> j < length (observers s) \<and> i \<noteq> j
      then wp_swap_temporary i (wp_copy j s) else Inr s)"
| "exec (Wp_assign_shared i j) s =
     (if i < length (observers s) \<and> j < length (owners s)
      then wp_swap_temporary i (wp_from_shared j s) else Inr s)"
| "exec (Wp_move_assign i j) s =
     (if i < length (observers s) \<and> j < length (observers s) \<and> i \<noteq> j
      then wp_swap_temporary i (wp_move j s) else Inr s)"
| "exec (Wp_reset i) s =
     (if i < length (observers s) then wp_swap_temporary i (wp_default s) else Inr s)"
| "exec (Wp_swap i j) s =
     (if i < length (observers s) \<and> j < length (observers s) then wp_swap i j s else Inr s)"
| "exec (Wp_lock i) s = (if i < length (observers s) then wp_lock i s else Inr s)"

text \<open>
  A program is a list of statements. An exception (\<open>bad_alloc\<close>) leaves its statement;
  the caller catches it and the program goes on. The other errors end the run.
\<close>

fun run :: "op list \<Rightarrow> state \<Rightarrow> outcome" where
  "run [] s = Inr s"
| "run (x # xs) s =
     (case exec x s of
        Inr s1 \<Rightarrow> run xs s1
      | Inl (e, s1) \<Rightarrow> if e = bad_alloc then run xs s1 else Inl (e, s1))"

section \<open>Programs whose managed objects hold pointers\<close>

text \<open>
  The statements above keep every pointer object in a variable of the program. A
  managed object can hold pointer objects as well: a node that observes itself or its
  parent, a parent that owns its children. The two statements
  \<^verbatim>\<open>p->m = std::move(q)\<close>, for an owning and for an observing \<open>q\<close>, put one there: \<open>p\<close>
  is the live owner \<open>i\<close>, which points to the object its control block manages, \<open>m\<close>
  is a member of that object that was empty so far, and \<open>q\<close> is the live pointer \<open>j\<close>,
  which the move leaves empty. From then on the member lives in the managed object,
  and the destruction hook of the block destroys it.
\<close>

definition managed_object :: "nat \<Rightarrow> state \<Rightarrow> pointer" where
  "managed_object c s =
     (case heap s c of None \<Rightarrow> nullptr | Some b \<Rightarrow> object_of (hook_of c (variant b)))"

definition sp_store :: "nat \<Rightarrow> nat \<Rightarrow> state \<Rightarrow> outcome" where
  "sp_store j i s =
     (case cb (owners s ! i) of
        None \<Rightarrow> Inr s
      | Some c \<Rightarrow>
          if ptr (owners s ! i) = nullptr \<or> ptr (owners s ! i) \<noteq> managed_object c s
          then Inr s
          else (case shared_ptr_move (owners s ! j) of
                  (n, r) \<Rightarrow> Inr (s\<lparr>owners := (owners s)[j := r],
                                  members := members s @ [(c, Shared_member n)]\<rparr>)))"

definition wp_store :: "nat \<Rightarrow> nat \<Rightarrow> state \<Rightarrow> outcome" where
  "wp_store j i s =
     (case cb (owners s ! i) of
        None \<Rightarrow> Inr s
      | Some c \<Rightarrow>
          if ptr (owners s ! i) = nullptr \<or> ptr (owners s ! i) \<noteq> managed_object c s
          then Inr s
          else (case weak_ptr_move (observers s ! j) of
                  (n, r) \<Rightarrow> Inr (s\<lparr>observers := (observers s)[j := r],
                                  members := members s @ [(c, Weak_member n)]\<rparr>)))"

text \<open>
  The statements of such a program: a statement \<open>x\<close> of the kind above, \<open>Stmt x\<close>;
  \<open>Sp_store j i\<close>, which moves the owner \<open>j\<close> into the object owner \<open>i\<close> points to; and
  \<open>Wp_store j i\<close>, which moves the observer \<open>j\<close> there. A store through a pointer that
  does not point to the object its block manages is no statement of the program and
  does nothing. A program runs as before; the state it ends with, whether it returns
  or stops with an error, is \<open>final\<close>.
\<close>

datatype action = Stmt op | Sp_store nat nat | Wp_store nat nat

fun perform :: "action \<Rightarrow> state \<Rightarrow> outcome" where
  "perform (Stmt x) s = exec x s"
| "perform (Sp_store j i) s =
     (if j < length (owners s) \<and> i < length (owners s) then sp_store j i s else Inr s)"
| "perform (Wp_store j i) s =
     (if j < length (observers s) \<and> i < length (owners s) then wp_store j i s else Inr s)"

fun program :: "action list \<Rightarrow> state \<Rightarrow> outcome" where
  "program [] s = Inr s"
| "program (x # xs) s =
     (case perform x s of
        Inr s1 \<Rightarrow> program xs s1
      | Inl (e, s1) \<Rightarrow> if e = bad_alloc then program xs s1 else Inl (e, s1))"

definition final :: "outcome \<Rightarrow> state" where
  "final r = (case r of Inl (e, s) \<Rightarrow> s | Inr s \<Rightarrow> s)"

section \<open>Counting references and effects\<close>

definition refs :: "nat \<Rightarrow> shared_ptr list \<Rightarrow> nat" where
  "refs c ps = length (filter (\<lambda>p. cb p = Some c) ps)"

definition wrefs :: "nat \<Rightarrow> weak_ptr list \<Rightarrow> nat" where
  "wrefs c ws = length (filter (\<lambda>w. wcb w = Some c) ws)"

definition is_hook :: "nat \<Rightarrow> event \<Rightarrow> bool" where
  "is_hook c e = (case e of Ev_delete_object c' h \<Rightarrow> c' = c | _ \<Rightarrow> False)"

definition frees :: "nat \<Rightarrow> event list \<Rightarrow> nat" where
  "frees c tr = length (filter (\<lambda>e. e = Ev_delete_cb c) tr)"

section \<open>Reading the trace\<close>

text \<open>What the calls of \<^verbatim>\<open>delete_object()\<close> on block \<open>c\<close> did, in order.\<close>

fun hooks_run :: "nat \<Rightarrow> event list \<Rightarrow> hook list" where
  "hooks_run c [] = []"
| "hooks_run c (e # es) =
     (case e of
        Ev_delete_object c' h \<Rightarrow> if c' = c then h # hooks_run c es else hooks_run c es
      | _ \<Rightarrow> hooks_run c es)"

text \<open>The variants block \<open>c\<close> was allocated with, in order.\<close>

fun news :: "nat \<Rightarrow> event list \<Rightarrow> cb_variant list" where
  "news c [] = []"
| "news c (e # es) =
     (case e of
        Ev_new c' v \<Rightarrow> if c' = c then v # news c es else news c es
      | _ \<Rightarrow> news c es)"

text \<open>Every \<^verbatim>\<open>delete cb\<close> of block \<open>c\<close> in the trace comes after a call of
  \<^verbatim>\<open>delete_object()\<close> on \<open>c\<close> (\<open>seen\<close>: one has happened before the trace starts).\<close>

fun hook_precedes_free :: "nat \<Rightarrow> bool \<Rightarrow> event list \<Rightarrow> bool" where
  "hook_precedes_free c seen [] = True"
| "hook_precedes_free c seen (e # es) =
     (if e = Ev_delete_cb c then seen \<and> hook_precedes_free c seen es
      else hook_precedes_free c (seen \<or> is_hook c e) es)"

section \<open>The invariant of the reachable states\<close>

text \<open>The counters of block \<open>c\<close>; zero when there is no such block.\<close>

definition shared_of :: "(nat \<Rightarrow> control_block option) \<Rightarrow> nat \<Rightarrow> nat" where
  "shared_of h c = (case h c of None \<Rightarrow> 0 | Some b \<Rightarrow> shared_cnt b)"

definition weak_of :: "(nat \<Rightarrow> control_block option) \<Rightarrow> nat \<Rightarrow> nat" where
  "weak_of h c = (case h c of None \<Rightarrow> 0 | Some b \<Rightarrow> weak_cnt b)"

text \<open>
  The invariant, for one block identity \<open>c\<close>: the counters of the block are the numbers
  of live \<^verbatim>\<open>shared_ptr\<close> and \<^verbatim>\<open>weak_ptr\<close> objects that point to it; an allocated block
  has an identity below \<open>next_cb\<close>, is pointed to by some object, and is of the variant
  the trace recorded at its allocation; every identity below \<open>next_cb\<close> was allocated
  once; \<^verbatim>\<open>delete_object()\<close> has run on \<open>c\<close> once, doing what the variant says, if \<open>c\<close>
  was allocated and no \<^verbatim>\<open>shared_ptr\<close> points to it, and has not run otherwise;
  \<^verbatim>\<open>delete cb\<close> has run once if \<open>c\<close> was allocated and is gone, and has not run
  otherwise; and it ran after \<^verbatim>\<open>delete_object()\<close>.
\<close>

definition inv_c ::
  "nat \<Rightarrow> (nat \<Rightarrow> control_block option) \<Rightarrow> nat \<Rightarrow> event list \<Rightarrow> shared_ptr list \<Rightarrow>
   weak_ptr list \<Rightarrow> bool" where
  "inv_c c h n tr ps ws =
     (shared_of h c = refs c ps \<and> weak_of h c = wrefs c ws \<and>
      (case h c of
         None \<Rightarrow> True
       | Some b \<Rightarrow> c < n \<and> 0 < refs c ps + wrefs c ws \<and> news c tr = [variant b]) \<and>
      length (news c tr) = (if c < n then 1 else 0) \<and>
      hooks_run c tr = (if c < n \<and> refs c ps = 0 then [hook_of c (hd (news c tr))] else []) \<and>
      frees c tr = (if c < n \<and> h c = None then 1 else 0) \<and>
      hook_precedes_free c False tr)"

text \<open>
  The invariant of the states that the statements over the variables of the program
  reach: no pointer object is a member of a managed object, and every block identity
  satisfies the above for the live objects.
\<close>

definition inv :: "state \<Rightarrow> bool" where
  "inv s = (members s = [] \<and>
            (\<forall>c. inv_c c (heap s) (next_cb s) (trace s) (owners s) (observers s)))"

text \<open>
  Outcomes of a statement started in \<open>s\<close>: it returns, in a state that satisfies the
  invariant, holds the objects \<open>ps\<close> and \<open>ws\<close>, and whose trace extends the one of \<open>s\<close>;
  it throws \<open>bad_alloc\<close> and leaves the objects and the blocks as they were; one of
  the two.
\<close>

definition steps_to :: "state \<Rightarrow> outcome \<Rightarrow> shared_ptr list \<Rightarrow> weak_ptr list \<Rightarrow> bool" where
  "steps_to s r ps ws =
     (case r of
        Inr s' \<Rightarrow> inv s' \<and> owners s' = ps \<and> observers s' = ws \<and> prefix (trace s) (trace s')
      | Inl e \<Rightarrow> False)"

definition throws :: "state \<Rightarrow> outcome \<Rightarrow> bool" where
  "throws s r =
     (case r of
        Inl (e, s') \<Rightarrow> e = bad_alloc \<and> inv s' \<and> owners s' = owners s \<and>
                       observers s' = observers s \<and> heap s' = heap s \<and>
                       prefix (trace s) (trace s')
      | Inr s' \<Rightarrow> False)"

definition good :: "state \<Rightarrow> outcome \<Rightarrow> bool" where
  "good s r =
     (case r of
        Inr s' \<Rightarrow> inv s' \<and> prefix (trace s) (trace s')
      | Inl (e, s') \<Rightarrow> e = bad_alloc \<and> inv s' \<and> prefix (trace s) (trace s'))"

section \<open>Pointers whose two fields agree\<close>






section \<open>The invariant of the general programs\<close>

text \<open>The owning and the observing pointers among a list of members, and those that
  lie in managed objects.\<close>

fun owners_in :: "member list \<Rightarrow> shared_ptr list" where
  "owners_in [] = []"
| "owners_in (Shared_member p # ms) = p # owners_in ms"
| "owners_in (Weak_member w # ms) = owners_in ms"

fun observers_in :: "member list \<Rightarrow> weak_ptr list" where
  "observers_in [] = []"
| "observers_in (Shared_member p # ms) = observers_in ms"
| "observers_in (Weak_member w # ms) = w # observers_in ms"

definition stored_owners :: "state \<Rightarrow> shared_ptr list" where
  "stored_owners s = owners_in (map snd (members s))"

definition stored_observers :: "state \<Rightarrow> weak_ptr list" where
  "stored_observers s = observers_in (map snd (members s))"

text \<open>
  What holds of block \<open>c\<close> at every point of every run, also inside a destruction hook
  and in the state an error leaves: an allocated block has an identity below
  \<open>next_cb\<close> and is of the variant the trace recorded at its allocation; every identity
  below \<open>next_cb\<close> was allocated once; and \<^verbatim>\<open>delete_object()\<close> has run on \<open>c\<close> once, doing
  what the variant says, if \<open>c\<close> was allocated and its shared counter is zero or the
  block is gone, and has not run otherwise.
\<close>

definition hooked :: "nat \<Rightarrow> (nat \<Rightarrow> control_block option) \<Rightarrow> nat \<Rightarrow> event list \<Rightarrow> bool" where
  "hooked c h n tr =
     ((case h c of None \<Rightarrow> True | Some b \<Rightarrow> c < n \<and> news c tr = [variant b]) \<and>
      length (news c tr) = (if c < n then 1 else 0) \<and>
      hooks_run c tr =
        (if c < n \<and> shared_of h c = 0 then [hook_of c (hd (news c tr))] else []))"

definition hooks_ok :: "state \<Rightarrow> bool" where
  "hooks_ok s = (\<forall>c. hooked c (heap s) (next_cb s) (trace s))"

text \<open>
  The shared counter of every block is the number of the owning pointers \<open>ps\<close> and of
  the owning pointers in managed objects that point to it (\<open>ps\<close>: the variables of the
  program and, inside a hook, the members still to be destroyed).
\<close>

definition counted :: "shared_ptr list \<Rightarrow> state \<Rightarrow> bool" where
  "counted ps s = (\<forall>c. shared_of (heap s) c = refs c (ps @ stored_owners s))"

text \<open>The same for the weak counter and the observing pointers \<open>ws\<close>.\<close>

definition wcounted :: "weak_ptr list \<Rightarrow> state \<Rightarrow> bool" where
  "wcounted ws s = (\<forall>c. weak_of (heap s) c = wrefs c (ws @ stored_observers s))"

text \<open>The invariant of the states a general program reaches between two statements.\<close>

definition kept :: "state \<Rightarrow> bool" where
  "kept s = (hooks_ok s \<and> counted (owners s) s \<and> wcounted (observers s) s)"

text \<open>
  \<open>extends s s'\<close>: the trace of \<open>s'\<close> continues the one of \<open>s\<close> and no identity was given
  back; \<open>continues s s'\<close>: moreover no block was allocated and the variables of the
  program are the same, as after a destructor. A statement started in \<open>s\<close> ends well
  when the state it ends with, by return or by error, extends \<open>s\<close> and satisfies
  \<open>hooks_ok\<close>, and satisfies the invariant where the program goes on.
\<close>

definition extends :: "state \<Rightarrow> state \<Rightarrow> bool" where
  "extends s s' = (prefix (trace s) (trace s') \<and> next_cb s \<le> next_cb s')"

definition continues :: "state \<Rightarrow> state \<Rightarrow> bool" where
  "continues s s' =
     (prefix (trace s) (trace s') \<and> next_cb s' = next_cb s \<and> owners s' = owners s \<and>
      observers s' = observers s)"

definition ends_well :: "state \<Rightarrow> outcome \<Rightarrow> bool" where
  "ends_well s r =
     (case r of
        Inr s' \<Rightarrow> kept s' \<and> extends s s'
      | Inl (e, s') \<Rightarrow> hooks_ok s' \<and> extends s s' \<and> (e = bad_alloc \<longrightarrow> kept s'))"

text \<open>A constructor ends well and, where it returns, has added one object.\<close>

definition adds_owner :: "state \<Rightarrow> outcome \<Rightarrow> bool" where
  "adds_owner s r =
     (ends_well s r \<and>
      (case r of Inr s' \<Rightarrow> length (owners s') = Suc (length (owners s)) | Inl e \<Rightarrow> True))"

definition adds_observer :: "state \<Rightarrow> outcome \<Rightarrow> bool" where
  "adds_observer s r =
     (ends_well s r \<and>
      (case r of Inr s' \<Rightarrow> length (observers s') = Suc (length (observers s)) | Inl e \<Rightarrow> True))"

text \<open>
  The last statement of \<^verbatim>\<open>~shared_ptr()\<close>, on the outcome of what came before it: the
  two counters are read through \<^verbatim>\<open>cb\<close>, and the block is deleted when both are zero.
\<close>

definition reread :: "nat \<Rightarrow> outcome \<Rightarrow> outcome" where
  "reread c r =
     (case r of
        Inl e \<Rightarrow> Inl e
      | Inr s2 \<Rightarrow>
          (case heap s2 c of
             None \<Rightarrow> Inl (use_after_free, s2)
           | Some b2 \<Rightarrow>
               if get_shared_cnt b2 = 0 \<and> get_weak_cnt b2 = 0
               then Inr (delete_cb c s2)
               else Inr s2))"
section \<open>Lists of objects and traces\<close>

lemma hooks_run_append: "hooks_run c (xs @ ys) = hooks_run c xs @ hooks_run c ys"
  by (induction xs) (auto split: event.splits)

lemma news_append: "news c (xs @ ys) = news c xs @ news c ys"
  by (induction xs) (auto split: event.splits)

lemma frees_append: "frees c (xs @ ys) = frees c xs + frees c ys"
  by (simp add: frees_def)

lemma frees_Cons: "frees c (e # es) = (if e = Ev_delete_cb c then 1 else 0) + frees c es"
  by (simp add: frees_def)

lemma frees_Nil: "frees c [] = 0"
  by (simp add: frees_def)

lemma hook_precedes_free_append:
  "hook_precedes_free c seen (xs @ ys) =
     (hook_precedes_free c seen xs \<and> hook_precedes_free c (seen \<or> hooks_run c xs \<noteq> []) ys)"
  by (induction xs arbitrary: seen) (auto simp: is_hook_def split: event.splits)

lemmas tr_simps = hooks_run_append news_append frees_append frees_Cons frees_Nil
  hook_precedes_free_append is_hook_def

lemma refs_Nil: "refs c [] = 0"
  by (simp add: refs_def)

lemma refs_append: "refs c (xs @ ys) = refs c xs + refs c ys"
  by (simp add: refs_def)

lemma refs_single: "refs c [p] = (if cb p = Some c then 1 else 0)"
  by (simp add: refs_def)

lemma refs_le: "refs c ps \<le> length ps"
  by (simp add: refs_def)

lemma refs_update:
  "i < length ps \<Longrightarrow>
   refs c (ps[i := q]) + (if cb (ps ! i) = Some c then 1 else 0) =
   refs c ps + (if cb q = Some c then 1 else 0)"
proof (induction ps arbitrary: i)
  case Nil
  then show ?case by simp
next
  case (Cons a ps)
  then show ?case by (cases i) (auto simp: refs_def)
qed

lemma refs_remove:
  "i < length ps \<Longrightarrow>
   refs c (remove_nth i ps) + (if cb (ps ! i) = Some c then 1 else 0) = refs c ps"
proof (induction ps arbitrary: i)
  case Nil
  then show ?case by simp
next
  case (Cons a ps)
  then show ?case by (cases i) (auto simp: refs_def remove_nth_def)
qed

lemma refs_remove':
  "i < length ps \<Longrightarrow>
   refs c (remove_nth i ps) = refs c ps - (if cb (ps ! i) = Some c then 1 else 0)"
  using refs_remove[of i ps c] by (simp split: if_splits)

lemma refs_pos: "i < length ps \<Longrightarrow> cb (ps ! i) = Some c \<Longrightarrow> 0 < refs c ps"
  by (auto simp: refs_def filter_empty_conv)

lemma wrefs_Nil: "wrefs c [] = 0"
  by (simp add: wrefs_def)

lemma wrefs_append: "wrefs c (xs @ ys) = wrefs c xs + wrefs c ys"
  by (simp add: wrefs_def)

lemma wrefs_single: "wrefs c [p] = (if wcb p = Some c then 1 else 0)"
  by (simp add: wrefs_def)

lemma wrefs_le: "wrefs c ps \<le> length ps"
  by (simp add: wrefs_def)

lemma wrefs_update:
  "i < length ps \<Longrightarrow>
   wrefs c (ps[i := q]) + (if wcb (ps ! i) = Some c then 1 else 0) =
   wrefs c ps + (if wcb q = Some c then 1 else 0)"
proof (induction ps arbitrary: i)
  case Nil
  then show ?case by simp
next
  case (Cons a ps)
  then show ?case by (cases i) (auto simp: wrefs_def)
qed

lemma wrefs_remove:
  "i < length ps \<Longrightarrow>
   wrefs c (remove_nth i ps) + (if wcb (ps ! i) = Some c then 1 else 0) = wrefs c ps"
proof (induction ps arbitrary: i)
  case Nil
  then show ?case by simp
next
  case (Cons a ps)
  then show ?case by (cases i) (auto simp: wrefs_def remove_nth_def)
qed

lemma wrefs_remove':
  "i < length ps \<Longrightarrow>
   wrefs c (remove_nth i ps) = wrefs c ps - (if wcb (ps ! i) = Some c then 1 else 0)"
  using wrefs_remove[of i ps c] by (simp split: if_splits)

lemma wrefs_pos: "i < length ps \<Longrightarrow> wcb (ps ! i) = Some c \<Longrightarrow> 0 < wrefs c ps"
  by (auto simp: wrefs_def filter_empty_conv)

lemma length_remove_nth: "i < length xs \<Longrightarrow> length (remove_nth i xs) = length xs - 1"
  by (simp add: remove_nth_def)

section \<open>The invariant holds in every reachable state\<close>

lemma inv_init: "inv init"
  by (simp add: inv_def inv_c_def init_def refs_def wrefs_def frees_def
      shared_of_def weak_of_def)

lemma inv_cI:
  assumes "inv_c c h n tr ps ws" "h' c = h c" "refs c ps' = refs c ps" "wrefs c ws' = wrefs c ws"
    "news c tr' = news c tr" "hooks_run c tr' = hooks_run c tr" "frees c tr' = frees c tr"
    "hook_precedes_free c False tr' = hook_precedes_free c False tr" "(c < n') = (c < n)"
  shows "inv_c c h' n' tr' ps' ws'"
  using assms(1) unfolding inv_c_def shared_of_def weak_of_def assms(2-9) .

lemma invI:
  "members s = [] \<Longrightarrow>
   (\<And>c. inv_c c (heap s) (next_cb s) (trace s) (owners s) (observers s)) \<Longrightarrow> inv s"
  by (simp add: inv_def)

lemma inv_members: "inv s \<Longrightarrow> members s = []"
  by (simp add: inv_def)

lemma inv_cong:
  assumes "inv s" "heap s' = heap s" "next_cb s' = next_cb s" "trace s' = trace s"
    "\<And>c. refs c (owners s') = refs c (owners s)"
    "\<And>c. wrefs c (observers s') = wrefs c (observers s)"
    "members s' = members s"
  shows "inv s'"
proof (rule invI)
  show "members s' = []" using assms(1,7) by (simp add: inv_def)
next
  fix c
  have "inv_c c (heap s) (next_cb s) (trace s) (owners s) (observers s)"
    using assms(1) by (simp add: inv_def)
  then show "inv_c c (heap s') (next_cb s') (trace s') (owners s') (observers s')"
    by (rule inv_cI) (simp_all add: assms(2-6))
qed

lemma invD: "inv s \<Longrightarrow> inv_c c (heap s) (next_cb s) (trace s) (owners s) (observers s)"
  by (simp add: inv_def)

lemma inv_c_live:
  assumes "inv_c c h n tr ps ws" "0 < refs c ps \<or> 0 < wrefs c ws"
  shows "\<exists>b. h c = Some b \<and> shared_cnt b = refs c ps \<and> weak_cnt b = wrefs c ws \<and> c < n \<and>
             news c tr = [variant b] \<and> frees c tr = 0 \<and> hook_precedes_free c False tr \<and>
             hooks_run c tr = (if refs c ps = 0 then [hook_of c (variant b)] else [])"
proof (cases "h c")
  case None
  then show ?thesis using assms by (simp add: inv_c_def shared_of_def weak_of_def)
next
  case (Some b)
  then show ?thesis using assms(1) by (simp add: inv_c_def shared_of_def weak_of_def)
qed

lemma inv_c_fresh:
  assumes "inv_c c h n tr ps ws" "n \<le> c"
  shows "h c = None" "refs c ps = 0" "wrefs c ws = 0" "news c tr = []" "hooks_run c tr = []"
    "frees c tr = 0" "hook_precedes_free c False tr"
proof -
  show h: "h c = None"
    using assms by (cases "h c") (simp_all add: inv_c_def)
  show "refs c ps = 0" "wrefs c ws = 0" "news c tr = []" "hooks_run c tr = []"
    "frees c tr = 0" "hook_precedes_free c False tr"
    using assms h by (simp_all add: inv_c_def shared_of_def weak_of_def)
qed

lemma inv_owners_perm:
  assumes "inv s" "\<And>c. refs c ps = refs c (owners s)"
  shows "inv (s\<lparr>owners := ps\<rparr>)"
  by (rule inv_cong[OF assms(1)]) (simp_all add: assms(2))

lemma inv_observers_perm:
  assumes "inv s" "\<And>c. wrefs c ws = wrefs c (observers s)"
  shows "inv (s\<lparr>observers := ws\<rparr>)"
  by (rule inv_cong[OF assms(1)]) (simp_all add: assms(2))

lemma inv_add_null:
  assumes "inv s" "cb q = None"
  shows "inv (s\<lparr>owners := owners s @ [q]\<rparr>)"
  by (rule inv_owners_perm[OF assms(1)]) (simp add: refs_append refs_single assms(2))

lemma inv_add_wnull:
  assumes "inv s" "wcb q = None"
  shows "inv (s\<lparr>observers := observers s @ [q]\<rparr>)"
  by (rule inv_observers_perm[OF assms(1)]) (simp add: wrefs_append wrefs_single assms(2))

lemma inv_c_inc_shared:
  assumes "inv_c c h n tr ps ws" "0 < refs c ps" "cb q = Some c" "h c = Some b"
  shows "inv_c c (h(c \<mapsto> b\<lparr>shared_cnt := Suc (shared_cnt b)\<rparr>)) n tr (ps @ [q]) ws"
proof -
  from inv_c_live[OF assms(1)] assms(2,4)
  have f: "shared_cnt b = refs c ps" "weak_cnt b = wrefs c ws" "c < n" "news c tr = [variant b]"
    "frees c tr = 0" "hook_precedes_free c False tr" "hooks_run c tr = []"
    by auto
  show ?thesis
    using f assms(2,3)
    by (simp add: inv_c_def shared_of_def weak_of_def refs_append refs_single)
qed

lemma inv_inc_shared:
  assumes "inv s" "heap s c = Some b" "0 < refs c (owners s)" "cb q = Some c"
  shows "inv (s\<lparr>heap := (heap s)(c \<mapsto> b\<lparr>shared_cnt := Suc (shared_cnt b)\<rparr>),
              owners := owners s @ [q]\<rparr>)"
proof (rule invI, goal_cases)
  case 1
  show ?case using assms(1) by (simp add: inv_def)
next
  case (2 c')
  note I = invD[OF assms(1), of c']
  show "inv_c c' (heap (s\<lparr>heap := (heap s)(c \<mapsto> b\<lparr>shared_cnt := Suc (shared_cnt b)\<rparr>),
              owners := owners s @ [q]\<rparr>)) (next_cb (s\<lparr>heap := (heap s)(c \<mapsto> b\<lparr>shared_cnt := Suc (shared_cnt b)\<rparr>),
              owners := owners s @ [q]\<rparr>)) (trace (s\<lparr>heap := (heap s)(c \<mapsto> b\<lparr>shared_cnt := Suc (shared_cnt b)\<rparr>),
              owners := owners s @ [q]\<rparr>)) (owners (s\<lparr>heap := (heap s)(c \<mapsto> b\<lparr>shared_cnt := Suc (shared_cnt b)\<rparr>),
              owners := owners s @ [q]\<rparr>)) (observers (s\<lparr>heap := (heap s)(c \<mapsto> b\<lparr>shared_cnt := Suc (shared_cnt b)\<rparr>),
              owners := owners s @ [q]\<rparr>))"
  proof (cases "c' = c")
    case True
    show ?thesis unfolding True
      using inv_c_inc_shared[OF invD[OF assms(1), of c] assms(3,4,2)] by simp
  next
    case False
    show ?thesis
      by (rule inv_cI[OF I]) (use False assms(4) in \<open>simp_all add: refs_append refs_single\<close>)
  qed
qed


lemma inv_c_inc_weak:
  assumes "inv_c c h n tr ps ws" "wcb q = Some c" "h c = Some b"
  shows "inv_c c (h(c \<mapsto> b\<lparr>weak_cnt := Suc (weak_cnt b)\<rparr>)) n tr ps (ws @ [q])"
  using assms
  by (simp add: inv_c_def shared_of_def weak_of_def wrefs_append wrefs_single)

lemma inv_inc_weak:
  assumes "inv s" "heap s c = Some b" "wcb q = Some c"
  shows "inv (s\<lparr>heap := (heap s)(c \<mapsto> b\<lparr>weak_cnt := Suc (weak_cnt b)\<rparr>),
              observers := observers s @ [q]\<rparr>)"
    (is "inv ?s'")
proof (rule invI, goal_cases)
  case 1
  show ?case using assms(1) by (simp add: inv_def)
next
  case (2 c')
  note I = invD[OF assms(1), of c']
  show "inv_c c' (heap ?s') (next_cb ?s') (trace ?s') (owners ?s') (observers ?s')"
  proof (cases "c' = c")
    case True
    show ?thesis unfolding True
      using inv_c_inc_weak[OF invD[OF assms(1), of c] assms(3,2)] by simp
  next
    case False
    show ?thesis
      by (rule inv_cI[OF I]) (use False assms(3) in \<open>simp_all add: wrefs_append wrefs_single\<close>)
  qed
qed

lemma inv_new_block:
  assumes "inv s"
  shows "inv (s\<lparr>heap := (heap s)(next_cb s \<mapsto> \<lparr>shared_cnt = 1, weak_cnt = 0, variant = v\<rparr>),
            next_cb := Suc (next_cb s),
            trace := trace s @ [Ev_new (next_cb s) v],
            owners := owners s @ [\<lparr>ptr = p, cb = Some (next_cb s)\<rparr>]\<rparr>)"
    (is "inv ?s'")
proof (rule invI, goal_cases)
  case 1
  show ?case using assms(1) by (simp add: inv_def)
next
  case (2 c)
  note I = invD[OF assms, of c]
  show "inv_c c (heap ?s') (next_cb ?s') (trace ?s') (owners ?s') (observers ?s')"
  proof (cases "c = next_cb s")
    case True
    note F = inv_c_fresh[OF invD[OF assms, of "next_cb s"] order_refl]
    show ?thesis unfolding True using F
      by (simp add: inv_c_def shared_of_def weak_of_def tr_simps refs_append refs_single)
  next
    case False
    have lt: "(c < Suc (next_cb s)) = (c < next_cb s)" using False by auto
    show ?thesis
      by (rule inv_cI[OF I])
        (use False lt in \<open>simp_all add: tr_simps refs_append refs_single\<close>)
  qed
qed

lemma inv_handler:
  assumes "inv s"
  shows "inv (s\<lparr>trace := trace s @ [Ev_handler d p]\<rparr>)"
proof (rule invI, goal_cases)
  case 1
  show ?case using assms(1) by (simp add: inv_def)
next
  case (2 c)
  show "inv_c c (heap (s\<lparr>trace := trace s @ [Ev_handler d p]\<rparr>))
     (next_cb (s\<lparr>trace := trace s @ [Ev_handler d p]\<rparr>))
     (trace (s\<lparr>trace := trace s @ [Ev_handler d p]\<rparr>))
     (owners (s\<lparr>trace := trace s @ [Ev_handler d p]\<rparr>))
     (observers (s\<lparr>trace := trace s @ [Ev_handler d p]\<rparr>))"
    by (rule inv_cI[OF invD[OF assms, of c]]) (simp_all add: tr_simps)
qed

lemma inv_c_release_shared:
  assumes "inv_c c h n tr ps ws" "i < length ps" "cb (ps ! i) = Some c" "h c = Some b"
  shows "inv_c c
     (if shared_cnt b = 1 \<and> weak_cnt b = 0 then h(c := None)
      else h(c \<mapsto> b\<lparr>shared_cnt := shared_cnt b - 1\<rparr>))
     n
     (tr @ (if shared_cnt b = 1 then [Ev_delete_object c (hook_of c (variant b))] else []) @
        (if shared_cnt b = 1 \<and> weak_cnt b = 0 then [Ev_delete_cb c] else []))
     (remove_nth i ps) ws"
proof -
  have pos: "0 < refs c ps" using assms(2,3) by (rule refs_pos)
  from inv_c_live[OF assms(1)] assms(4) pos
  have f: "shared_cnt b = refs c ps" "weak_cnt b = wrefs c ws" "c < n" "news c tr = [variant b]"
    "frees c tr = 0" "hook_precedes_free c False tr" "hooks_run c tr = []"
    by auto
  have r: "refs c (remove_nth i ps) = refs c ps - 1"
    using assms(2,3) by (simp add: refs_remove')
  show ?thesis
  proof (cases "refs c ps = 1")
    case True
    show ?thesis
    proof (cases "wrefs c ws = 0")
      case w: True
      show ?thesis using f r True w
        by (simp add: inv_c_def shared_of_def weak_of_def tr_simps)
    next
      case w: False
      show ?thesis using f r True w
        by (simp add: inv_c_def shared_of_def weak_of_def tr_simps)
    qed
  next
    case False
    then have "1 < refs c ps" using pos by simp
    then show ?thesis using f r False
      by (simp add: inv_c_def shared_of_def weak_of_def tr_simps)
  qed
qed

lemma inv_release_shared:
  assumes "inv s" "i < length (owners s)" "cb (owners s ! i) = Some c" "heap s c = Some b"
  shows "inv (s\<lparr>heap := (if shared_cnt b = 1 \<and> weak_cnt b = 0 then (heap s)(c := None)
                     else (heap s)(c \<mapsto> b\<lparr>shared_cnt := shared_cnt b - 1\<rparr>)),
            trace := trace s @
              (if shared_cnt b = 1 then [Ev_delete_object c (hook_of c (variant b))] else []) @
              (if shared_cnt b = 1 \<and> weak_cnt b = 0 then [Ev_delete_cb c] else []),
            owners := remove_nth i (owners s)\<rparr>)"
    (is "inv ?s'")
proof (rule invI, goal_cases)
  case 1
  show ?case using assms(1) by (simp add: inv_def)
next
  case (2 c')
  note I = invD[OF assms(1), of c']
  show "inv_c c' (heap ?s') (next_cb ?s') (trace ?s') (owners ?s') (observers ?s')"
  proof (cases "c' = c")
    case True
    show ?thesis unfolding True
      using inv_c_release_shared[OF invD[OF assms(1), of c] assms(2,3,4)] by simp
  next
    case False
    show ?thesis
      by (rule inv_cI[OF I])
        (use False assms(2,3) in \<open>simp_all add: tr_simps refs_remove'\<close>)
  qed
qed

lemma inv_c_release_weak:
  assumes "inv_c c h n tr ps ws" "i < length ws" "wcb (ws ! i) = Some c" "h c = Some b"
  shows "inv_c c
     (if shared_cnt b = 0 \<and> weak_cnt b = 1 then h(c := None)
      else h(c \<mapsto> b\<lparr>weak_cnt := weak_cnt b - 1\<rparr>))
     n
     (tr @ (if shared_cnt b = 0 \<and> weak_cnt b = 1 then [Ev_delete_cb c] else []))
     ps (remove_nth i ws)"
proof -
  have pos: "0 < wrefs c ws" using assms(2,3) by (rule wrefs_pos)
  from inv_c_live[OF assms(1)] assms(4) pos
  have f: "shared_cnt b = refs c ps" "weak_cnt b = wrefs c ws" "c < n" "news c tr = [variant b]"
    "frees c tr = 0" "hook_precedes_free c False tr"
    "hooks_run c tr = (if refs c ps = 0 then [hook_of c (variant b)] else [])"
    by auto
  have r: "wrefs c (remove_nth i ws) = wrefs c ws - 1"
    using assms(2,3) by (simp add: wrefs_remove')
  show ?thesis
  proof (cases "wrefs c ws = 1")
    case True
    show ?thesis
    proof (cases "refs c ps = 0")
      case w: True
      show ?thesis using f r True w
        by (simp add: inv_c_def shared_of_def weak_of_def tr_simps)
    next
      case w: False
      show ?thesis using f r True w
        by (simp add: inv_c_def shared_of_def weak_of_def tr_simps)
    qed
  next
    case False
    then have "1 < wrefs c ws" using pos by simp
    then show ?thesis using f r False
      by (simp add: inv_c_def shared_of_def weak_of_def tr_simps)
  qed
qed

lemma inv_release_weak:
  assumes "inv s" "i < length (observers s)" "wcb (observers s ! i) = Some c" "heap s c = Some b"
  shows "inv (s\<lparr>heap := (if shared_cnt b = 0 \<and> weak_cnt b = 1 then (heap s)(c := None)
                     else (heap s)(c \<mapsto> b\<lparr>weak_cnt := weak_cnt b - 1\<rparr>)),
            trace := trace s @
              (if shared_cnt b = 0 \<and> weak_cnt b = 1 then [Ev_delete_cb c] else []),
            observers := remove_nth i (observers s)\<rparr>)"
    (is "inv ?s'")
proof (rule invI, goal_cases)
  case 1
  show ?case using assms(1) by (simp add: inv_def)
next
  case (2 c')
  note I = invD[OF assms(1), of c']
  show "inv_c c' (heap ?s') (next_cb ?s') (trace ?s') (owners ?s') (observers ?s')"
  proof (cases "c' = c")
    case True
    show ?thesis unfolding True
      using inv_c_release_weak[OF invD[OF assms(1), of c] assms(2,3,4)] by simp
  next
    case False
    show ?thesis
      by (rule inv_cI[OF I])
        (use False assms(2,3) in \<open>simp_all add: tr_simps wrefs_remove'\<close>)
  qed
qed

lemma shared_ptr_swap_eq: "shared_ptr_swap a b = (b, a)"
  by (cases a; cases b) (simp add: shared_ptr_swap_def)

lemma weak_ptr_swap_eq: "weak_ptr_swap a b = (b, a)"
  by (cases a; cases b) (simp add: weak_ptr_swap_def)

lemma shared_ptr_eta: "\<lparr>ptr = ptr r, cb = cb r\<rparr> = r"
  by (cases r) simp

lemma weak_ptr_eta: "\<lparr>wptr = wptr r, wcb = wcb r\<rparr> = r"
  by (cases r) simp

lemma shared_ptr_move_eq: "shared_ptr_move r = (r, shared_ptr_default)"
  by (cases r) (simp add: shared_ptr_move_def shared_ptr_default_def)

lemma weak_ptr_move_eq: "weak_ptr_move r = (r, weak_ptr_default)"
  by (cases r) (simp add: weak_ptr_move_def weak_ptr_default_def)

lemma cb_inc_shared_eq:
  "heap s c = Some b \<Longrightarrow>
   cb_inc_shared c s = Inr (s\<lparr>heap := (heap s)(c \<mapsto> b\<lparr>shared_cnt := Suc (shared_cnt b)\<rparr>)\<rparr>)"
  by (simp add: cb_inc_shared_def inc_shared_def)

lemma cb_inc_weak_eq:
  "heap s c = Some b \<Longrightarrow>
   cb_inc_weak c s = Inr (s\<lparr>heap := (heap s)(c \<mapsto> b\<lparr>weak_cnt := Suc (weak_cnt b)\<rparr>)\<rparr>)"
  by (simp add: cb_inc_weak_def inc_weak_def)

lemma shared_ptr_adopt_fail:
  "shared_ptr_adopt p d False s = Inl (bad_alloc, s\<lparr>trace := trace s @ [Ev_handler d p]\<rparr>)"
  by (simp add: shared_ptr_adopt_def new_cb_def)

lemma shared_ptr_adopt_ok:
  "shared_ptr_adopt p d True s =
     Inr (\<lparr>ptr = p, cb = Some (next_cb s)\<rparr>,
          s\<lparr>heap := (heap s)(next_cb s \<mapsto> \<lparr>shared_cnt = 1, weak_cnt = 0, variant = cb_separate p d\<rparr>),
            next_cb := Suc (next_cb s),
            trace := trace s @ [Ev_new (next_cb s) (cb_separate p d)]\<rparr>)"
  by (simp add: shared_ptr_adopt_def new_cb_def cb_inc_shared_def inc_shared_def
      control_block_ctor_def)

lemma make_shared_ok:
  "make_shared args True s =
     Inr (\<lparr>ptr = Storage (next_cb s), cb = Some (next_cb s)\<rparr>,
          s\<lparr>heap := (heap s)(next_cb s \<mapsto>
                 \<lparr>shared_cnt = 1, weak_cnt = 0, variant = cb_inplace_ctor (map named args)\<rparr>),
            next_cb := Suc (next_cb s),
            trace := trace s @ [Ev_new (next_cb s) (cb_inplace_ctor (map named args))]\<rparr>)"
  by (simp add: make_shared_def new_cb_def cb_inc_shared_def inc_shared_def
      control_block_ctor_def cb_inplace_get_def)

lemma make_shared_fail: "make_shared args False s = Inl (bad_alloc, s)"
  by (simp add: make_shared_def new_cb_def)

lemma shared_ptr_alias_eq:
  "heap s c = Some b \<Longrightarrow> cb r = Some c \<Longrightarrow>
   shared_ptr_alias r p s =
     Inr (\<lparr>ptr = p, cb = Some c\<rparr>,
          s\<lparr>heap := (heap s)(c \<mapsto> b\<lparr>shared_cnt := Suc (shared_cnt b)\<rparr>)\<rparr>)"
  by (simp add: shared_ptr_alias_def cb_inc_shared_eq)

lemma shared_ptr_alias_null:
  "cb r = None \<Longrightarrow> shared_ptr_alias r p s = Inr (\<lparr>ptr = p, cb = None\<rparr>, s)"
  by (simp add: shared_ptr_alias_def)

lemma weak_ptr_ctor_eq:
  "heap s c = Some b \<Longrightarrow>
   weak_ptr_ctor p (Some c) s =
     Inr (\<lparr>wptr = p, wcb = Some c\<rparr>,
          s\<lparr>heap := (heap s)(c \<mapsto> b\<lparr>weak_cnt := Suc (weak_cnt b)\<rparr>)\<rparr>)"
  by (simp add: weak_ptr_ctor_def cb_inc_weak_eq)

lemma weak_ptr_ctor_null: "weak_ptr_ctor p None s = Inr (\<lparr>wptr = p, wcb = None\<rparr>, s)"
  by (simp add: weak_ptr_ctor_def)

lemma members_same: "members s = ms \<Longrightarrow> s\<lparr>members := ms\<rparr> = s"
  by (cases s) simp

lemma filter_other_members:
  "members_of c s = [] \<Longrightarrow> filter (\<lambda>m. fst m \<noteq> c) (members s) = members s"
  by (auto simp: members_of_def filter_empty_conv filter_id_conv)

lemma shared_ptr_dtor_eq:
  assumes "cb p = Some c" "heap s c = Some b" "0 < shared_cnt b"
    "object_of (hook_of c (variant b)) = nullptr \<or> members_of c s = []"
  shows "shared_ptr_dtor p s =
     Inr (s\<lparr>heap := (if shared_cnt b = 1 \<and> weak_cnt b = 0 then (heap s)(c := None)
                     else (heap s)(c \<mapsto> b\<lparr>shared_cnt := shared_cnt b - 1\<rparr>)),
            trace := trace s @
              (if shared_cnt b = 1 then [Ev_delete_object c (hook_of c (variant b))] else []) @
              (if shared_cnt b = 1 \<and> weak_cnt b = 0 then [Ev_delete_cb c] else [])\<rparr>)"
proof (cases "object_of (hook_of c (variant b)) = nullptr")
  case True
  then show ?thesis using assms(1-3)
    by (auto simp: shared_ptr_dtor.simps release_shared_def delete_object_def get_shared_cnt_def
        get_weak_cnt_def delete_cb_def)
next
  case False
  then have m: "members_of c s = []" using assms(4) by simp
  show ?thesis using assms(1-3) False
    by (auto simp: shared_ptr_dtor.simps release_shared_def delete_object_def get_shared_cnt_def
        get_weak_cnt_def delete_cb_def m filter_other_members[OF m] members_same)
qed

lemma shared_ptr_dtor_null: "cb p = None \<Longrightarrow> shared_ptr_dtor p s = Inr s"
  by (simp add: shared_ptr_dtor.simps)

lemma weak_ptr_dtor_eq:
  assumes "wcb w = Some c" "heap s c = Some b" "0 < weak_cnt b"
  shows "weak_ptr_dtor w s =
     Inr (s\<lparr>heap := (if shared_cnt b = 0 \<and> weak_cnt b = 1 then (heap s)(c := None)
                     else (heap s)(c \<mapsto> b\<lparr>weak_cnt := weak_cnt b - 1\<rparr>)),
            trace := trace s @
              (if shared_cnt b = 0 \<and> weak_cnt b = 1 then [Ev_delete_cb c] else [])\<rparr>)"
  using assms
  by (auto simp: weak_ptr_dtor_def release_weak_def get_shared_cnt_def
      get_weak_cnt_def delete_cb_def Let_def)

lemma weak_ptr_dtor_null: "wcb w = None \<Longrightarrow> weak_ptr_dtor w s = Inr s"
  by (simp add: weak_ptr_dtor_def)

lemma lock_eq:
  assumes "wcb w = Some c" "heap s c = Some b"
  shows "lock w s =
     (if shared_cnt b = 0 then Inr (shared_ptr_default, s)
      else Inr (\<lparr>ptr = wptr w, cb = Some c\<rparr>,
                s\<lparr>heap := (heap s)(c \<mapsto> b\<lparr>shared_cnt := Suc (shared_cnt b)\<rparr>)\<rparr>))"
  using assms by (simp add: lock_def get_shared_cnt_def inc_shared_def)

lemma lock_null: "wcb w = None \<Longrightarrow> lock w s = Inr (shared_ptr_default, s)"
  by (simp add: lock_def)

lemma inv_owner_block:
  assumes "inv s" "i < length (owners s)" "cb (owners s ! i) = Some c"
  shows "\<exists>b. heap s c = Some b \<and> shared_cnt b = refs c (owners s) \<and> 0 < shared_cnt b \<and>
             weak_cnt b = wrefs c (observers s)"
  using inv_c_live[OF invD[OF assms(1), of c]] refs_pos[OF assms(2,3)] by auto

lemma inv_observer_block:
  assumes "inv s" "i < length (observers s)" "wcb (observers s ! i) = Some c"
  shows "\<exists>b. heap s c = Some b \<and> weak_cnt b = wrefs c (observers s) \<and> 0 < weak_cnt b \<and>
             shared_cnt b = refs c (owners s)"
  using inv_c_live[OF invD[OF assms(1), of c]] wrefs_pos[OF assms(2,3)] by auto


lemma steps_toI:
  "r = Inr s' \<Longrightarrow> inv s' \<Longrightarrow> owners s' = ps \<Longrightarrow> observers s' = ws \<Longrightarrow>
   prefix (trace s) (trace s') \<Longrightarrow> steps_to s r ps ws"
  by (simp add: steps_to_def)

lemma steps_toE:
  assumes "steps_to s r ps ws"
  obtains s' where "r = Inr s'" "inv s'" "owners s' = ps" "observers s' = ws"
    "prefix (trace s) (trace s')"
  using assms by (cases r) (auto simp: steps_to_def)

lemma sp_default_steps:
  "inv s \<Longrightarrow> steps_to s (sp_default s) (owners s @ [shared_ptr_default]) (observers s)"
  by (simp add: steps_to_def sp_default_def new_owner_def shared_ptr_default_def inv_add_null)

lemma sp_adopt_steps:
  "inv s \<Longrightarrow>
   steps_to s (sp_adopt p d True s) (owners s @ [\<lparr>ptr = p, cb = Some (next_cb s)\<rparr>]) (observers s)"
  using inv_new_block[where s=s and v="cb_separate p d" and p=p]
  by (simp add: sp_adopt_def new_owner_def shared_ptr_adopt_ok steps_to_def)

lemma sp_adopt_throws: "inv s \<Longrightarrow> throws s (sp_adopt p d False s)"
  using inv_handler[where s=s and d=d and p=p]
  by (simp add: sp_adopt_def new_owner_def shared_ptr_adopt_fail throws_def)

lemma sp_make_steps:
  "inv s \<Longrightarrow>
   steps_to s (sp_make args True s)
     (owners s @ [\<lparr>ptr = Storage (next_cb s), cb = Some (next_cb s)\<rparr>]) (observers s)"
  using inv_new_block[where s=s and v="cb_inplace_ctor (map named args)"
      and p="Storage (next_cb s)"]
  by (simp add: sp_make_def new_owner_def make_shared_ok steps_to_def)

lemma sp_make_throws: "inv s \<Longrightarrow> throws s (sp_make args False s)"
  by (simp add: sp_make_def new_owner_def make_shared_fail throws_def)

lemma sp_alias_steps:
  assumes "inv s" "i < length (owners s)"
  shows "steps_to s (sp_alias i p s) (owners s @ [\<lparr>ptr = p, cb = cb (owners s ! i)\<rparr>])
           (observers s)"
proof (cases "cb (owners s ! i)")
  case None
  then show ?thesis using assms(1)
    by (simp add: sp_alias_def shared_ptr_alias_null new_owner_def steps_to_def inv_add_null)
next
  case (Some c)
  from inv_owner_block[OF assms Some] obtain b where
    b: "heap s c = Some b" "shared_cnt b = refs c (owners s)" "0 < shared_cnt b" by blast
  have "inv (s\<lparr>heap := (heap s)(c \<mapsto> b\<lparr>shared_cnt := Suc (shared_cnt b)\<rparr>),
              owners := owners s @ [\<lparr>ptr = p, cb = Some c\<rparr>]\<rparr>)"
    using b by (intro inv_inc_shared assms(1)) simp_all
  then show ?thesis
    by (simp add: sp_alias_def shared_ptr_alias_eq[OF b(1) Some] new_owner_def steps_to_def Some)
qed

lemma sp_copy_steps:
  assumes "inv s" "i < length (owners s)"
  shows "steps_to s (sp_copy i s) (owners s @ [owners s ! i]) (observers s)"
  using sp_alias_steps[OF assms, of "ptr (owners s ! i)"]
  by (simp add: sp_copy_def sp_alias_def shared_ptr_copy_def shared_ptr_eta)

lemma sp_move_steps:
  assumes "inv s" "i < length (owners s)"
  shows "steps_to s (sp_move i s) ((owners s)[i := shared_ptr_default] @ [owners s ! i])
           (observers s)"
proof -
  have "refs c ((owners s)[i := shared_ptr_default] @ [owners s ! i]) = refs c (owners s)" for c
    using refs_update[OF assms(2), of c shared_ptr_default]
    by (simp add: refs_append refs_single shared_ptr_default_def)
  then have "inv (s\<lparr>owners := (owners s)[i := shared_ptr_default] @ [owners s ! i]\<rparr>)"
    by (rule inv_owners_perm[OF assms(1)])
  then show ?thesis
    by (simp add: sp_move_def shared_ptr_move_eq steps_to_def)
qed

lemma sp_dtor_steps:
  assumes "inv s" "i < length (owners s)"
  shows "steps_to s (sp_dtor i s) (remove_nth i (owners s)) (observers s)"
proof (cases "cb (owners s ! i)")
  case None
  have "refs c (remove_nth i (owners s)) = refs c (owners s)" for c
    using assms(2) None by (simp add: refs_remove')
  then have "inv (s\<lparr>owners := remove_nth i (owners s)\<rparr>)"
    by (rule inv_owners_perm[OF assms(1)])
  then show ?thesis using None
    by (simp add: sp_dtor_def shared_ptr_dtor_null steps_to_def)
next
  case (Some c)
  from inv_owner_block[OF assms Some] obtain b where
    b: "heap s c = Some b" "0 < shared_cnt b" by blast
  show ?thesis
    using inv_release_shared[OF assms Some b(1)]
    by (simp add: sp_dtor_def shared_ptr_dtor_eq[OF Some b] steps_to_def members_of_def
        inv_members[OF assms(1)])
qed

lemma refs_swap:
  assumes "i < length ps" "j < length ps"
  shows "refs c (ps[i := ps ! j, j := ps ! i]) = refs c ps"
proof (cases "i = j")
  case True
  then show ?thesis by simp
next
  case False
  have 1: "refs c (ps[i := ps ! j, j := ps ! i]) + (if cb (ps ! j) = Some c then 1 else 0) =
     refs c (ps[i := ps ! j]) + (if cb (ps ! i) = Some c then 1 else 0)"
    using refs_update[of j "ps[i := ps ! j]" c "ps ! i"] assms False by simp
  have 2: "refs c (ps[i := ps ! j]) + (if cb (ps ! i) = Some c then 1 else 0) =
     refs c ps + (if cb (ps ! j) = Some c then 1 else 0)"
    using refs_update[of i ps c "ps ! j"] assms by simp
  from 1 2 show ?thesis by simp
qed

lemma sp_swap_steps:
  assumes "inv s" "i < length (owners s)" "j < length (owners s)"
  shows "steps_to s (sp_swap i j s) ((owners s)[i := owners s ! j, j := owners s ! i])
           (observers s)"
proof -
  have "inv (s\<lparr>owners := (owners s)[i := owners s ! j, j := owners s ! i]\<rparr>)"
    by (rule inv_owners_perm[OF assms(1)]) (rule refs_swap[OF assms(2,3)])
  then show ?thesis by (simp add: sp_swap_def shared_ptr_swap_eq steps_to_def)
qed

lemma swap_last:
  assumes "i < length ps"
  shows "remove_nth (length ps) ((ps @ [t])[length ps := (ps @ [t]) ! i, i := (ps @ [t]) ! length ps])
         = ps[i := t]"
  using assms by (simp add: remove_nth_def nth_append list_update_append)

lemma sp_swap_temporary_steps:
  assumes "steps_to s r (ps @ [t]) ws" "i < length ps"
  shows "steps_to s (sp_swap_temporary i r) (ps[i := t]) ws"
proof -
  from assms(1) obtain s1 where s1: "r = Inr s1" "inv s1" "owners s1 = ps @ [t]"
    "observers s1 = ws" "prefix (trace s) (trace s1)" by (rule steps_toE)
  have n: "length (owners s1) - 1 = length ps" using s1(3) by simp
  from sp_swap_steps[OF s1(2), of "length ps" i] assms(2) s1(3)
  obtain s2 where s2: "sp_swap (length ps) i s1 = Inr s2" "inv s2"
    "owners s2 = (ps @ [t])[length ps := (ps @ [t]) ! i, i := (ps @ [t]) ! length ps]"
    "observers s2 = observers s1" "prefix (trace s1) (trace s2)"
    by (auto elim!: steps_toE)
  have "length ps < length (owners s2)" using s2(3) by simp
  from sp_dtor_steps[OF s2(2) this]
  obtain s3 where s3: "sp_dtor (length ps) s2 = Inr s3" "inv s3"
    "owners s3 = remove_nth (length ps) (owners s2)"
    "observers s3 = observers s2" "prefix (trace s2) (trace s3)"
    by (auto elim!: steps_toE)
  have "owners s3 = ps[i := t]" using s3(3) s2(3) swap_last[OF assms(2)] by simp
  moreover have "prefix (trace s) (trace s3)"
    using s1(5) s2(5) s3(5) by (meson prefix_order.trans)
  ultimately show ?thesis using s1 s2 s3 n
    by (simp add: sp_swap_temporary_def seq_def steps_to_def)
qed

lemma sp_swap_temporary_throws:
  assumes "throws s r"
  shows "throws s (sp_swap_temporary i r)"
  using assms by (cases r) (simp_all add: throws_def sp_swap_temporary_def seq_def)

lemma wp_default_steps:
  "inv s \<Longrightarrow> steps_to s (wp_default s) (owners s) (observers s @ [weak_ptr_default])"
  by (simp add: steps_to_def wp_default_def new_observer_def weak_ptr_default_def inv_add_wnull)

lemma wp_ctor_steps:
  assumes "inv s" "k = None \<or> (\<exists>c. k = Some c \<and> heap s c \<noteq> None)"
  shows "steps_to s (new_observer (weak_ptr_ctor p k s)) (owners s)
           (observers s @ [\<lparr>wptr = p, wcb = k\<rparr>])"
proof (cases k)
  case None
  then show ?thesis using assms(1)
    by (simp add: weak_ptr_ctor_null new_observer_def steps_to_def inv_add_wnull)
next
  case (Some c)
  then obtain b where b: "heap s c = Some b" using assms(2) by auto
  have "inv (s\<lparr>heap := (heap s)(c \<mapsto> b\<lparr>weak_cnt := Suc (weak_cnt b)\<rparr>),
              observers := observers s @ [\<lparr>wptr = p, wcb = Some c\<rparr>]\<rparr>)"
    using b by (intro inv_inc_weak assms(1)) simp_all
  then show ?thesis
    by (simp add: Some weak_ptr_ctor_eq[OF b] new_observer_def steps_to_def)
qed

lemma wp_copy_steps:
  assumes "inv s" "i < length (observers s)"
  shows "steps_to s (wp_copy i s) (owners s) (observers s @ [observers s ! i])"
proof -
  have "wcb (observers s ! i) = None \<or>
        (\<exists>c. wcb (observers s ! i) = Some c \<and> heap s c \<noteq> None)"
    using inv_observer_block[OF assms] by (cases "wcb (observers s ! i)") auto
  from wp_ctor_steps[OF assms(1) this, of "wptr (observers s ! i)"]
  show ?thesis by (simp add: wp_copy_def weak_ptr_copy_def weak_ptr_eta)
qed

lemma wp_from_shared_steps:
  assumes "inv s" "i < length (owners s)"
  shows "steps_to s (wp_from_shared i s) (owners s)
           (observers s @ [\<lparr>wptr = ptr (owners s ! i), wcb = cb (owners s ! i)\<rparr>])"
proof -
  have "cb (owners s ! i) = None \<or> (\<exists>c. cb (owners s ! i) = Some c \<and> heap s c \<noteq> None)"
    using inv_owner_block[OF assms] by (cases "cb (owners s ! i)") auto
  from wp_ctor_steps[OF assms(1) this, of "ptr (owners s ! i)"]
  show ?thesis by (simp add: wp_from_shared_def weak_ptr_from_shared_def)
qed

lemma wp_move_steps:
  assumes "inv s" "i < length (observers s)"
  shows "steps_to s (wp_move i s) (owners s)
           ((observers s)[i := weak_ptr_default] @ [observers s ! i])"
proof -
  have "wrefs c ((observers s)[i := weak_ptr_default] @ [observers s ! i]) =
        wrefs c (observers s)" for c
    using wrefs_update[OF assms(2), of c weak_ptr_default]
    by (simp add: wrefs_append wrefs_single weak_ptr_default_def)
  then have "inv (s\<lparr>observers := (observers s)[i := weak_ptr_default] @ [observers s ! i]\<rparr>)"
    by (rule inv_observers_perm[OF assms(1)])
  then show ?thesis
    by (simp add: wp_move_def weak_ptr_move_eq steps_to_def)
qed

lemma wp_dtor_steps:
  assumes "inv s" "i < length (observers s)"
  shows "steps_to s (wp_dtor i s) (owners s) (remove_nth i (observers s))"
proof (cases "wcb (observers s ! i)")
  case None
  have "wrefs c (remove_nth i (observers s)) = wrefs c (observers s)" for c
    using assms(2) None by (simp add: wrefs_remove')
  then have "inv (s\<lparr>observers := remove_nth i (observers s)\<rparr>)"
    by (rule inv_observers_perm[OF assms(1)])
  then show ?thesis using None
    by (simp add: wp_dtor_def weak_ptr_dtor_null steps_to_def)
next
  case (Some c)
  from inv_observer_block[OF assms Some] obtain b where
    b: "heap s c = Some b" "0 < weak_cnt b" by blast
  show ?thesis
    using inv_release_weak[OF assms Some b(1)]
    by (simp add: wp_dtor_def weak_ptr_dtor_eq[OF Some b] steps_to_def)
qed

lemma wrefs_swap:
  assumes "i < length ps" "j < length ps"
  shows "wrefs c (ps[i := ps ! j, j := ps ! i]) = wrefs c ps"
proof (cases "i = j")
  case True
  then show ?thesis by simp
next
  case False
  have 1: "wrefs c (ps[i := ps ! j, j := ps ! i]) + (if wcb (ps ! j) = Some c then 1 else 0) =
     wrefs c (ps[i := ps ! j]) + (if wcb (ps ! i) = Some c then 1 else 0)"
    using wrefs_update[of j "ps[i := ps ! j]" c "ps ! i"] assms False by simp
  have 2: "wrefs c (ps[i := ps ! j]) + (if wcb (ps ! i) = Some c then 1 else 0) =
     wrefs c ps + (if wcb (ps ! j) = Some c then 1 else 0)"
    using wrefs_update[of i ps c "ps ! j"] assms by simp
  from 1 2 show ?thesis by simp
qed

lemma wp_swap_steps:
  assumes "inv s" "i < length (observers s)" "j < length (observers s)"
  shows "steps_to s (wp_swap i j s) (owners s)
           ((observers s)[i := observers s ! j, j := observers s ! i])"
proof -
  have "inv (s\<lparr>observers := (observers s)[i := observers s ! j, j := observers s ! i]\<rparr>)"
    by (rule inv_observers_perm[OF assms(1)]) (rule wrefs_swap[OF assms(2,3)])
  then show ?thesis by (simp add: wp_swap_def weak_ptr_swap_eq steps_to_def)
qed

lemma wp_swap_temporary_steps:
  assumes "steps_to s r ps (ws @ [t])" "i < length ws"
  shows "steps_to s (wp_swap_temporary i r) ps (ws[i := t])"
proof -
  from assms(1) obtain s1 where s1: "r = Inr s1" "inv s1" "owners s1 = ps"
    "observers s1 = ws @ [t]" "prefix (trace s) (trace s1)" by (rule steps_toE)
  have n: "length (observers s1) - 1 = length ws" using s1(4) by simp
  from wp_swap_steps[OF s1(2), of "length ws" i] assms(2) s1(4)
  obtain s2 where s2: "wp_swap (length ws) i s1 = Inr s2" "inv s2"
    "observers s2 = (ws @ [t])[length ws := (ws @ [t]) ! i, i := (ws @ [t]) ! length ws]"
    "owners s2 = owners s1" "prefix (trace s1) (trace s2)"
    by (auto elim!: steps_toE)
  have "length ws < length (observers s2)" using s2(3) by simp
  from wp_dtor_steps[OF s2(2) this]
  obtain s3 where s3: "wp_dtor (length ws) s2 = Inr s3" "inv s3"
    "observers s3 = remove_nth (length ws) (observers s2)"
    "owners s3 = owners s2" "prefix (trace s2) (trace s3)"
    by (auto elim!: steps_toE)
  have "observers s3 = ws[i := t]" using s3(3) s2(3) swap_last[OF assms(2)] by simp
  moreover have "prefix (trace s) (trace s3)"
    using s1(5) s2(5) s3(5) by (meson prefix_order.trans)
  ultimately show ?thesis using s1 s2 s3 n
    by (simp add: wp_swap_temporary_def seq_def steps_to_def)
qed

lemma wp_lock_steps:
  assumes "inv s" "i < length (observers s)"
  shows "\<exists>q s1. lock (observers s ! i) s = Inr (q, s1) \<and>
           steps_to s (wp_lock i s) (owners s @ [q]) (observers s) \<and>
           (q = shared_ptr_default \<or>
            q = \<lparr>ptr = wptr (observers s ! i), cb = wcb (observers s ! i)\<rparr> \<and>
            wcb (observers s ! i) \<noteq> None)"
proof (cases "wcb (observers s ! i)")
  case None
  then show ?thesis using assms(1)
    by (simp add: wp_lock_def lock_null new_owner_def steps_to_def inv_add_null
        shared_ptr_default_def)
next
  case (Some c)
  from inv_observer_block[OF assms Some] obtain b where
    b: "heap s c = Some b" "shared_cnt b = refs c (owners s)" by blast
  show ?thesis
  proof (cases "shared_cnt b = 0")
    case True
    then show ?thesis using assms(1) b(1) Some
      by (simp add: wp_lock_def lock_eq[OF Some b(1)] new_owner_def steps_to_def inv_add_null
          shared_ptr_default_def)
  next
    case False
    have "inv (s\<lparr>heap := (heap s)(c \<mapsto> b\<lparr>shared_cnt := Suc (shared_cnt b)\<rparr>),
              owners := owners s @ [\<lparr>ptr = wptr (observers s ! i), cb = Some c\<rparr>]\<rparr>)"
      using b False by (intro inv_inc_shared assms(1)) simp_all
    then show ?thesis using False b(1) Some
      by (simp add: wp_lock_def lock_eq[OF Some b(1)] new_owner_def steps_to_def)
  qed
qed

lemma steps_to_good: "steps_to s r ps ws \<Longrightarrow> good s r"
  by (cases r) (simp_all add: steps_to_def good_def)

lemma throws_good: "throws s r \<Longrightarrow> good s r"
  by (cases r) (auto simp: throws_def good_def)

lemma good_Inr: "inv s \<Longrightarrow> good s (Inr s)"
  by (simp add: good_def)

lemma exec_good:
  assumes "inv s"
  shows "good s (exec x s)"
proof (cases x)
  case Sp_default
  then show ?thesis using sp_default_steps[OF assms] by (auto intro: steps_to_good)
next
  case (Sp_adopt p d ok)
  then show ?thesis
    using sp_adopt_steps[OF assms, of p d] sp_adopt_throws[OF assms, of p d]
    by (cases ok) (auto intro: steps_to_good throws_good)
next
  case (Sp_make args ok)
  then show ?thesis
    using sp_make_steps[OF assms, of args] sp_make_throws[OF assms, of args]
    by (cases ok) (auto intro: steps_to_good throws_good)
next
  case (Sp_alias i p)
  then show ?thesis using sp_alias_steps[OF assms, of i p] assms
    by (auto intro: steps_to_good good_Inr)
next
  case (Sp_copy i)
  then show ?thesis using sp_copy_steps[OF assms, of i] assms
    by (auto intro: steps_to_good good_Inr)
next
  case (Sp_move i)
  then show ?thesis using sp_move_steps[OF assms, of i] assms
    by (auto intro: steps_to_good good_Inr)
next
  case (Sp_dtor i)
  then show ?thesis using sp_dtor_steps[OF assms, of i] assms
    by (auto intro: steps_to_good good_Inr)
next
  case (Sp_assign i j)
  then show ?thesis
    using sp_swap_temporary_steps[OF sp_copy_steps[OF assms], of j i] assms
    by (auto intro: steps_to_good good_Inr)
next
  case (Sp_move_assign i j)
  then show ?thesis
    using sp_swap_temporary_steps[OF sp_move_steps[OF assms], of j i] assms
    by (auto intro: steps_to_good good_Inr)
next
  case (Sp_reset i)
  then show ?thesis
    using sp_swap_temporary_steps[OF sp_default_steps[OF assms], of i] assms
    by (auto intro: steps_to_good good_Inr)
next
  case (Sp_reset_ptr i p d ok)
  then show ?thesis
    using sp_swap_temporary_steps[OF sp_adopt_steps[OF assms, of p d], of i]
      sp_swap_temporary_throws[OF sp_adopt_throws[OF assms, of p d], of i] assms
    by (cases ok) (auto intro: steps_to_good throws_good good_Inr)
next
  case (Sp_swap i j)
  then show ?thesis using sp_swap_steps[OF assms, of i j] assms
    by (auto intro: steps_to_good good_Inr)
next
  case Wp_default
  then show ?thesis using wp_default_steps[OF assms] by (auto intro: steps_to_good)
next
  case (Wp_copy i)
  then show ?thesis using wp_copy_steps[OF assms, of i] assms
    by (auto intro: steps_to_good good_Inr)
next
  case (Wp_from_shared i)
  then show ?thesis using wp_from_shared_steps[OF assms, of i] assms
    by (auto intro: steps_to_good good_Inr)
next
  case (Wp_move i)
  then show ?thesis using wp_move_steps[OF assms, of i] assms
    by (auto intro: steps_to_good good_Inr)
next
  case (Wp_dtor i)
  then show ?thesis using wp_dtor_steps[OF assms, of i] assms
    by (auto intro: steps_to_good good_Inr)
next
  case (Wp_assign i j)
  then show ?thesis
    using wp_swap_temporary_steps[OF wp_copy_steps[OF assms], of j i] assms
    by (auto intro: steps_to_good good_Inr)
next
  case (Wp_assign_shared i j)
  then show ?thesis
    using wp_swap_temporary_steps[OF wp_from_shared_steps[OF assms], of j i] assms
    by (auto intro: steps_to_good good_Inr)
next
  case (Wp_move_assign i j)
  then show ?thesis
    using wp_swap_temporary_steps[OF wp_move_steps[OF assms], of j i] assms
    by (auto intro: steps_to_good good_Inr)
next
  case (Wp_reset i)
  then show ?thesis
    using wp_swap_temporary_steps[OF wp_default_steps[OF assms], of i] assms
    by (auto intro: steps_to_good good_Inr)
next
  case (Wp_swap i j)
  then show ?thesis using wp_swap_steps[OF assms, of i j] assms
    by (auto intro: steps_to_good good_Inr)
next
  case (Wp_lock i)
  then show ?thesis using wp_lock_steps[OF assms, of i] assms
    by (auto intro: steps_to_good good_Inr)
qed

lemma run_good: "inv s \<Longrightarrow> \<exists>s'. run xs s = Inr s' \<and> inv s' \<and> prefix (trace s) (trace s')"
proof (induction xs arbitrary: s)
  case Nil
  then show ?case by simp
next
  case (Cons x xs)
  have g: "good s (exec x s)" by (rule exec_good[OF Cons.prems])
  show ?case
  proof (cases "exec x s")
    case (Inl e)
    then obtain s1 where s1: "exec x s = Inl (bad_alloc, s1)" "inv s1"
      "prefix (trace s) (trace s1)"
      using g by (cases e) (auto simp: good_def)
    from Cons.IH[OF s1(2)] obtain s' where
      "run xs s1 = Inr s'" "inv s'" "prefix (trace s1) (trace s')" by blast
    then show ?thesis using s1 by (auto intro: prefix_order.trans)
  next
    case (Inr s1)
    then have s1: "inv s1" "prefix (trace s) (trace s1)" using g by (simp_all add: good_def)
    from Cons.IH[OF s1(1)] obtain s' where
      "run xs s1 = Inr s'" "inv s'" "prefix (trace s1) (trace s')" by blast
    then show ?thesis using s1 Inr by (auto intro: prefix_order.trans)
  qed
qed

lemma reachable_inv: "run xs init = Inr s \<Longrightarrow> inv s"
  using run_good[OF inv_init, of xs] by auto

section \<open>Evaluating runs; facts about single functions\<close>

text \<open>The definitions a run on concrete statements is evaluated with.\<close>

lemmas run_defs = init_def sp_default_def sp_adopt_def sp_make_def sp_alias_def sp_copy_def
  sp_move_def sp_dtor_def sp_swap_def sp_swap_temporary_def wp_default_def wp_copy_def
  wp_from_shared_def wp_move_def wp_dtor_def wp_swap_def wp_swap_temporary_def wp_lock_def
  new_owner_def new_observer_def seq_def remove_nth_def
  shared_ptr_default_def shared_ptr_adopt_def shared_ptr_alias_def shared_ptr_copy_def
  shared_ptr_move_def shared_ptr_dtor.simps members_of_def object_of_def shared_ptr_swap_def make_shared_def
  weak_ptr_default_def weak_ptr_ctor_def weak_ptr_copy_def weak_ptr_from_shared_def
  weak_ptr_move_def weak_ptr_dtor_def weak_ptr_swap_def lock_def
  new_cb_def delete_cb_def cb_inc_shared_def cb_inc_weak_def control_block_ctor_def
  release_shared_def release_weak_def inc_shared_def inc_weak_def get_shared_cnt_def
  get_weak_cnt_def delete_object_def hook_of_def cb_inplace_get_def cb_inplace_ctor_def
  named_def forward_def Let_def






text \<open>
  \<^verbatim>\<open>make_shared\<close> with a successful allocation: one block with embedded storage is
  allocated, the object is constructed in it, the shared counter becomes 1, and the
  result points into the storage and to the block. The constructor of \<^verbatim>\<open>Y\<close> receives
  every argument as an lvalue, whatever the caller passed.
\<close>

lemma named_eq: "named = (\<lambda>a. (lvalue, snd a))"
  by (rule ext) (simp add: named_def)

lemma make_shared_steps:
  "make_shared args True s =
     Inr (\<lparr>ptr = cb_inplace_get (next_cb s), cb = Some (next_cb s)\<rparr>,
          s\<lparr>heap := (heap s)(next_cb s \<mapsto>
                 \<lparr>shared_cnt = 1, weak_cnt = 0,
                  variant = cb_inplace (map (\<lambda>a. (lvalue, snd a)) args)\<rparr>),
            next_cb := Suc (next_cb s),
            trace := trace s @
              [Ev_new (next_cb s) (cb_inplace (map (\<lambda>a. (lvalue, snd a)) args))]\<rparr>)"
  by (simp add: make_shared_ok cb_inplace_ctor_def forward_def named_eq cb_inplace_get_def
      comp_def)

text \<open>Runs, \<open>use_count\<close> in a reachable state, and the statements that keep the fields
  of every pointer in agreement.\<close>

lemma run_append:
  "run (xs @ ys) s = (case run xs s of Inr s1 \<Rightarrow> run ys s1 | Inl e \<Rightarrow> Inl e)"
  by (induction xs arbitrary: s) (auto split: sum.splits prod.splits)

lemma use_count_refs:
  assumes "inv s" "cb q = Some c" "0 < refs c (owners s)"
  shows "use_count q s = Inr (refs c (owners s))"
  using inv_c_live[OF invD[OF assms(1), of c]] assms(2,3)
  by (auto simp: use_count_def get_shared_cnt_def)

lemma refs_pos_set: "q \<in> set ps \<Longrightarrow> cb q = Some c \<Longrightarrow> 0 < refs c ps"
  by (auto simp: refs_def filter_empty_conv)

lemma use_count_owner:
  assumes "inv s" "q \<in> set (owners s)" "cb q = Some c"
  shows "use_count q s = Inr (refs c (owners s))"
  using use_count_refs[OF assms(1,3) refs_pos_set[OF assms(2,3)]] .

lemma refs_Cons: "refs c (p # ps) = (if cb p = Some c then 1 else 0) + refs c ps"
  by (simp add: refs_def)

lemma refs_replicate: "refs c (replicate n t) = (if cb t = Some c then n else 0)"
  by (induction n) (simp_all add: refs_def)

lemma exec_copy_steps:
  assumes "inv s" "i < length (owners s)"
  shows "\<exists>s'. exec (Sp_copy i) s = Inr s' \<and> inv s' \<and> owners s' = owners s @ [owners s ! i] \<and>
           observers s' = observers s"
  using sp_copy_steps[OF assms] assms(2) by (auto elim!: steps_toE)

lemma exec_dtor_steps:
  assumes "inv s" "i < length (owners s)"
  shows "\<exists>s'. exec (Sp_dtor i) s = Inr s' \<and> inv s' \<and> owners s' = remove_nth i (owners s) \<and>
           observers s' = observers s"
  using sp_dtor_steps[OF assms] assms(2) by (auto elim!: steps_toE)

lemma exec_adopt_steps:
  assumes "inv s"
  shows "\<exists>s'. exec (Sp_adopt p d True) s = Inr s' \<and> inv s' \<and>
           owners s' = owners s @ [\<lparr>ptr = p, cb = Some (next_cb s)\<rparr>] \<and>
           observers s' = observers s"
  using sp_adopt_steps[OF assms, of p d] by (auto elim!: steps_toE)

lemma run_copies:
  assumes "inv s" "m < length (owners s)"
  shows "\<exists>s'. run (replicate n (Sp_copy m)) s = Inr s' \<and> inv s' \<and>
           owners s' = owners s @ replicate n (owners s ! m)"
  using assms
proof (induction n arbitrary: s)
  case 0
  then show ?case by simp
next
  case (Suc n)
  from exec_copy_steps[OF Suc.prems] obtain s1 where
    s1: "exec (Sp_copy m) s = Inr s1" "inv s1" "owners s1 = owners s @ [owners s ! m]" by blast
  have m: "m < length (owners s1)" using Suc.prems(2) s1(3) by simp
  from Suc.IH[OF s1(2) m] obtain s' where
    s': "run (replicate n (Sp_copy m)) s1 = Inr s'" "inv s'"
    "owners s' = owners s1 @ replicate n (owners s1 ! m)" by blast
  have "owners s' = owners s @ replicate (Suc n) (owners s ! m)"
    using s'(3) s1(3) Suc.prems(2) by (simp add: nth_append replicate_app_Cons_same)
  then show ?case using s1(1) s'(1,2) by simp
qed









lemma counters_bounded:
  assumes "run xs init = Inr s" and "heap s c = Some b"
  shows "shared_cnt b \<le> length (owners s) \<and> weak_cnt b \<le> length (observers s)"
proof -
  have "inv s" using assms(1) by (rule reachable_inv)
  then have "shared_of (heap s) c = refs c (owners s)"
    and "weak_of (heap s) c = wrefs c (observers s)"
    using invD[of s c] by (simp_all add: inv_c_def)
  then show ?thesis
    using assms(2) refs_le[of c "owners s"] wrefs_le[of c "observers s"]
    by (simp add: shared_of_def weak_of_def)
qed

section \<open>The invariant of the general programs holds at every point\<close>

text \<open>
  What follows is about programs whose managed objects may hold pointers: what a
  hook leaves behind, that every destructor keeps \<open>hooks_ok\<close> in whatever state it ends,
  that it keeps both counters exact where it returns, and the same for every
  statement and every program.
\<close>

lemma final_simps [simp]: "final (Inr s) = s" "final (Inl (e, s)) = s"
  by (simp_all add: final_def)

lemma extends_refl: "extends s s"
  by (simp add: extends_def)

lemma extends_trans: "extends s s1 \<Longrightarrow> extends s1 s2 \<Longrightarrow> extends s s2"
  by (auto simp: extends_def intro: prefix_order.trans)

lemma hooks_okI: "(\<And>c. hooked c (heap s) (next_cb s) (trace s)) \<Longrightarrow> hooks_ok s"
  by (simp add: hooks_ok_def)

lemma hooks_okD: "hooks_ok s \<Longrightarrow> hooked c (heap s) (next_cb s) (trace s)"
  by (simp add: hooks_ok_def)

lemma hooks_ok_frame:
  "heap s' = heap s \<Longrightarrow> next_cb s' = next_cb s \<Longrightarrow> trace s' = trace s \<Longrightarrow>
   hooks_ok s' = hooks_ok s"
  by (simp add: hooks_ok_def)

lemma hooked_other:
  assumes "hooked c h n tr" "h' c = h c" "news c tr' = news c tr"
    "hooks_run c tr' = hooks_run c tr" "(c < n') = (c < n)"
  shows "hooked c h' n' tr'"
  using assms(1) unfolding hooked_def shared_of_def assms(2-5) .

text \<open>A block is rewritten, its variant kept, its shared counter zero as before or
  not zero as before.\<close>

lemma hooks_ok_update:
  assumes "hooks_ok s" "heap s c = Some b" "variant b' = variant b"
    "(shared_cnt b' = 0) = (shared_cnt b = 0)"
  shows "hooks_ok (s\<lparr>heap := (heap s)(c \<mapsto> b')\<rparr>)"
proof (rule hooks_okI)
  fix c'
  show "hooked c' (heap (s\<lparr>heap := (heap s)(c \<mapsto> b')\<rparr>)) (next_cb (s\<lparr>heap := (heap s)(c \<mapsto> b')\<rparr>))
     (trace (s\<lparr>heap := (heap s)(c \<mapsto> b')\<rparr>))"
  proof (cases "c' = c")
    case True
    show ?thesis using hooks_okD[OF assms(1), of c] assms(2-4) True
      by (simp add: hooked_def shared_of_def)
  next
    case False
    show ?thesis by (rule hooked_other[OF hooks_okD[OF assms(1), of c']]) (use False in auto)
  qed
qed

text \<open>The last owner is released and the hook is called.\<close>

lemma hooks_ok_hook:
  assumes "hooks_ok s" "heap s c = Some b" "0 < shared_cnt b" "shared_cnt b' = 0"
    "variant b' = variant b"
  shows "hooks_ok (s\<lparr>heap := (heap s)(c \<mapsto> b'),
                     trace := trace s @ [Ev_delete_object c (hook_of c (variant b'))]\<rparr>)"
    (is "hooks_ok ?s'")
proof (rule hooks_okI)
  fix c'
  show "hooked c' (heap ?s') (next_cb ?s') (trace ?s')"
  proof (cases "c' = c")
    case True
    show ?thesis using hooks_okD[OF assms(1), of c] assms(2-5) True
      by (simp add: hooked_def shared_of_def tr_simps)
  next
    case False
    show ?thesis
      by (rule hooked_other[OF hooks_okD[OF assms(1), of c']]) (use False in \<open>auto simp: tr_simps\<close>)
  qed
qed

text \<open>\<^verbatim>\<open>delete cb\<close> of a block whose shared counter is zero.\<close>

lemma hooks_ok_delete_cb:
  assumes "hooks_ok s" "heap s c = Some b" "shared_cnt b = 0"
  shows "hooks_ok (delete_cb c s)"
proof (rule hooks_okI)
  fix c'
  show "hooked c' (heap (delete_cb c s)) (next_cb (delete_cb c s)) (trace (delete_cb c s))"
  proof (cases "c' = c")
    case True
    show ?thesis using hooks_okD[OF assms(1), of c] assms(2,3) True
      by (simp add: hooked_def shared_of_def tr_simps delete_cb_def)
  next
    case False
    show ?thesis
      by (rule hooked_other[OF hooks_okD[OF assms(1), of c']])
        (use False in \<open>auto simp: tr_simps delete_cb_def\<close>)
  qed
qed

lemma hooks_ok_fresh:
  assumes "hooks_ok s" "next_cb s \<le> c"
  shows "heap s c = None" "news c (trace s) = []" "hooks_run c (trace s) = []"
proof -
  show h: "heap s c = None"
    using hooks_okD[OF assms(1), of c] assms(2) by (cases "heap s c") (simp_all add: hooked_def)
  show "news c (trace s) = []" "hooks_run c (trace s) = []"
    using hooks_okD[OF assms(1), of c] assms(2) by (simp_all add: hooked_def)
qed

text \<open>A new block, with shared counter 1.\<close>

lemma hooks_ok_new:
  assumes "hooks_ok s"
  shows "hooks_ok (s\<lparr>heap := (heap s)(next_cb s \<mapsto> \<lparr>shared_cnt = 1, weak_cnt = 0, variant = v\<rparr>),
            next_cb := Suc (next_cb s),
            trace := trace s @ [Ev_new (next_cb s) v]\<rparr>)"
    (is "hooks_ok ?s'")
proof (rule hooks_okI)
  fix c
  show "hooked c (heap ?s') (next_cb ?s') (trace ?s')"
  proof (cases "c = next_cb s")
    case True
    show ?thesis unfolding True using hooks_ok_fresh[OF assms order_refl]
      by (simp add: hooked_def shared_of_def tr_simps)
  next
    case False
    have lt: "(c < Suc (next_cb s)) = (c < next_cb s)" using False by auto
    show ?thesis
      by (rule hooked_other[OF hooks_okD[OF assms, of c]]) (use False lt in \<open>auto simp: tr_simps\<close>)
  qed
qed

lemma hooks_ok_handler:
  assumes "hooks_ok s"
  shows "hooks_ok (s\<lparr>trace := trace s @ [Ev_handler d p]\<rparr>)"
proof (rule hooks_okI)
  fix c
  show "hooked c (heap (s\<lparr>trace := trace s @ [Ev_handler d p]\<rparr>))
     (next_cb (s\<lparr>trace := trace s @ [Ev_handler d p]\<rparr>))
     (trace (s\<lparr>trace := trace s @ [Ev_handler d p]\<rparr>))"
    by (rule hooked_other[OF hooks_okD[OF assms, of c]]) (simp_all add: tr_simps)
qed

section \<open>The destructors\<close>

lemma continues_refl: "continues s s"
  by (simp add: continues_def)

lemma continues_trans: "continues s s1 \<Longrightarrow> continues s1 s2 \<Longrightarrow> continues s s2"
  by (auto simp: continues_def intro: prefix_order.trans)

lemma continues_extends: "continues s s' \<Longrightarrow> extends s s'"
  by (simp add: continues_def extends_def)

lemma shared_ptr_dtor_unfold:
  assumes "cb p = Some c" "heap s c = Some b" "0 < shared_cnt b"
  shows "shared_ptr_dtor p s = reread c
     (if shared_cnt b = 1
      then (if object_of (hook_of c (variant b)) = nullptr
            then Inr (s\<lparr>heap := (heap s)(c \<mapsto> b\<lparr>shared_cnt := shared_cnt b - 1\<rparr>),
                        trace := trace s @ [Ev_delete_object c (hook_of c (variant b))]\<rparr>)
            else destroy_members (rev (members_of c s))
                   (s\<lparr>heap := (heap s)(c \<mapsto> b\<lparr>shared_cnt := shared_cnt b - 1\<rparr>),
                      trace := trace s @ [Ev_delete_object c (hook_of c (variant b))],
                      members := filter (\<lambda>m. fst m \<noteq> c) (members s)\<rparr>))
      else Inr (s\<lparr>heap := (heap s)(c \<mapsto> b\<lparr>shared_cnt := shared_cnt b - 1\<rparr>)\<rparr>))"
  using assms
  by (auto simp: shared_ptr_dtor.simps reread_def release_shared_def delete_object_def
      get_shared_cnt_def)

lemma shared_ptr_dtor_stuck:
  "cb p = Some c \<Longrightarrow> heap s c = None \<Longrightarrow> shared_ptr_dtor p s = Inl (use_after_free, s)"
  "cb p = Some c \<Longrightarrow> heap s c = Some b \<Longrightarrow> shared_cnt b = 0 \<Longrightarrow>
     shared_ptr_dtor p s = Inl (assertion_failed, s)"
  by (simp_all add: shared_ptr_dtor.simps release_shared_def)

lemma reread_hooks_ok:
  assumes "hooks_ok (final r)"
  shows "hooks_ok (final (reread c r))"
proof (cases r)
  case (Inl e)
  then show ?thesis using assms by (simp add: reread_def)
next
  case (Inr s2)
  then show ?thesis using assms
    by (auto simp: reread_def get_shared_cnt_def hooks_ok_delete_cb split: option.splits)
qed

lemma reread_no_bad_alloc:
  assumes "\<forall>s'. r \<noteq> Inl (bad_alloc, s')"
  shows "reread c r \<noteq> Inl (bad_alloc, s')"
  using assms by (cases r) (auto simp: reread_def split: option.splits)

lemma reread_continues:
  assumes "continues s (final r)"
  shows "continues s (final (reread c r))"
proof (cases r)
  case (Inl e)
  then show ?thesis using assms by (simp add: reread_def)
next
  case (Inr s2)
  then show ?thesis using assms
    by (auto simp: reread_def continues_def delete_cb_def split: option.splits)
qed

lemma weak_ptr_dtor_no_bad_alloc: "weak_ptr_dtor w s \<noteq> Inl (bad_alloc, s')"
  by (auto simp: weak_ptr_dtor_def release_weak_def Let_def split: option.splits)

lemma weak_ptr_dtor_hooks_ok:
  assumes "hooks_ok s"
  shows "hooks_ok (final (weak_ptr_dtor w s)) \<and> continues s (final (weak_ptr_dtor w s))"
proof (cases "wcb w")
  case None
  then show ?thesis using assms by (simp add: weak_ptr_dtor_def continues_refl)
next
  case (Some c)
  show ?thesis
  proof (cases "heap s c")
    case None
    then show ?thesis using assms Some by (simp add: weak_ptr_dtor_def continues_refl)
  next
    case b: (Some b)
    show ?thesis
    proof (cases "0 < weak_cnt b")
      case False
      then show ?thesis using assms Some b
        by (simp add: weak_ptr_dtor_def release_weak_def continues_refl)
    next
      case True
      let ?s1 = "s\<lparr>heap := (heap s)(c \<mapsto> b\<lparr>weak_cnt := weak_cnt b - 1\<rparr>)\<rparr>"
      have h1: "hooks_ok ?s1" by (rule hooks_ok_update[OF assms b]) simp_all
      show ?thesis
      proof (cases "shared_cnt b = 0 \<and> weak_cnt b = 1")
        case False
        then show ?thesis using h1 by (auto simp: weak_ptr_dtor_eq[OF Some b True] continues_def)
      next
        case z: True
        have "hooks_ok (delete_cb c ?s1)"
          using hooks_ok_delete_cb[OF h1, of c "b\<lparr>weak_cnt := weak_cnt b - 1\<rparr>"] z by simp
        then show ?thesis using z
          by (simp add: weak_ptr_dtor_eq[OF Some b True] continues_def delete_cb_def)
      qed
    qed
  qed
qed

lemma dtor_hooks_ok:
  "hooks_ok s \<Longrightarrow>
     hooks_ok (final (shared_ptr_dtor p s)) \<and> continues s (final (shared_ptr_dtor p s))"
  "hooks_ok s \<Longrightarrow>
     hooks_ok (final (destroy_members ms s)) \<and> continues s (final (destroy_members ms s))"
  "hooks_ok s \<Longrightarrow>
     hooks_ok (final (member_dtor m s)) \<and> continues s (final (member_dtor m s))"
proof (induction p s and ms s and m s rule: shared_ptr_dtor_destroy_members_member_dtor.induct)
  case (1 p s)
  show ?case
  proof (cases "cb p")
    case None
    then show ?thesis using "1.prems" by (simp add: shared_ptr_dtor_null continues_refl)
  next
    case (Some c)
    show ?thesis
    proof (cases "heap s c")
      case None
      then show ?thesis using "1.prems" Some
        by (simp add: shared_ptr_dtor_stuck continues_refl)
    next
      case b: (Some b)
      show ?thesis
      proof (cases "0 < shared_cnt b")
        case False
        then show ?thesis using "1.prems" Some b
          by (simp add: shared_ptr_dtor_stuck continues_refl)
      next
        case True
        let ?b1 = "b\<lparr>shared_cnt := shared_cnt b - 1\<rparr>"
        let ?h = "hook_of c (variant b)"
        let ?s1 = "s\<lparr>heap := (heap s)(c \<mapsto> ?b1)\<rparr>"
        let ?s1e = "s\<lparr>heap := (heap s)(c \<mapsto> ?b1), trace := trace s @ [Ev_delete_object c ?h]\<rparr>"
        let ?s1m = "s\<lparr>heap := (heap s)(c \<mapsto> ?b1), trace := trace s @ [Ev_delete_object c ?h],
                      members := filter (\<lambda>m. fst m \<noteq> c) (members s)\<rparr>"
        let ?r = "if shared_cnt b = 1
            then (if object_of ?h = nullptr then Inr ?s1e
                  else destroy_members (rev (members_of c s)) ?s1m)
            else Inr ?s1"
        have u: "shared_ptr_dtor p s = reread c ?r"
          by (rule shared_ptr_dtor_unfold[OF Some b True])
        have "hooks_ok (final ?r) \<and> continues s (final ?r)"
        proof (cases "shared_cnt b = 1")
          case False
          have "hooks_ok ?s1"
            by (rule hooks_ok_update[OF "1.prems" b]) (use False True in auto)
          then show ?thesis using False by (simp add: continues_def)
        next
          case one: True
          have e: "hooks_ok ?s1e"
            using hooks_ok_hook[OF "1.prems" b True, of ?b1] one by simp
          show ?thesis
          proof (cases "object_of ?h = nullptr")
            case True
            then show ?thesis using one e by (simp add: continues_def)
          next
            case False
            have m: "hooks_ok ?s1m"
              using e hooks_ok_frame[of ?s1m ?s1e] by simp
            have "hooks_ok (final (destroy_members (rev (members_of c s)) ?s1m)) \<and>
                  continues ?s1m (final (destroy_members (rev (members_of c s)) ?s1m))"
              using "1.IH"[of c b ?b1 ?h] Some b True one False m
              by (simp add: release_shared_def delete_object_def get_shared_cnt_def)
            moreover have "continues s ?s1m" by (simp add: continues_def)
            ultimately show ?thesis using one False by (auto intro: continues_trans)
          qed
        qed
        then show ?thesis unfolding u by (simp add: reread_hooks_ok reread_continues)
      qed
    qed
  qed
next
  case (2 s)
  then show ?case by (simp add: continues_refl)
next
  case (3 m ms s)
  show ?case
  proof (cases "member_dtor m s")
    case (Inl e)
    then show ?thesis using "3.IH"(1)[OF "3.prems"] by simp
  next
    case (Inr s1)
    then have h: "hooks_ok s1" "continues s s1" using "3.IH"(1)[OF "3.prems"] by simp_all
    from "3.IH"(2)[OF Inr h(1)] h(2) show ?thesis using Inr
      by (auto intro: continues_trans)
  qed
next
  case (4 p s)
  then show ?case by simp
next
  case (5 w s)
  then show ?case by (simp add: weak_ptr_dtor_hooks_ok)
qed

section \<open>The shared counters count the owning pointers\<close>

lemma countedI:
  "(\<And>c. shared_of (heap s) c = refs c (ps @ stored_owners s)) \<Longrightarrow> counted ps s"
  by (simp add: counted_def)

lemma countedD: "counted ps s \<Longrightarrow> shared_of (heap s) c = refs c (ps @ stored_owners s)"
  by (simp add: counted_def)

lemma shared_of_update:
  "shared_of (h(c \<mapsto> b)) c' = (if c' = c then shared_cnt b else shared_of h c')"
  "shared_of (h(c := None)) c' = (if c' = c then 0 else shared_of h c')"
  by (simp_all add: shared_of_def)

lemma shared_of_Some: "h c = Some b \<Longrightarrow> shared_of h c = shared_cnt b"
  by (simp add: shared_of_def)

lemma owners_in_append: "owners_in (xs @ ys) = owners_in xs @ owners_in ys"
  by (induction xs rule: owners_in.induct) simp_all

lemma refs_owners_in_rev: "refs c (owners_in (rev xs)) = refs c (owners_in xs)"
  by (induction xs rule: owners_in.induct)
    (simp_all add: owners_in_append refs_append refs_Cons refs_Nil)

lemma refs_stored_split:
  "refs c' (owners_in (map snd (filter (\<lambda>m. fst m = c) ms))) +
   refs c' (owners_in (map snd (filter (\<lambda>m. fst m \<noteq> c) ms))) =
   refs c' (owners_in (map snd ms))"
proof (induction ms)
  case Nil
  then show ?case by (simp add: refs_Nil)
next
  case (Cons a ms)
  then show ?case by (cases a; cases "snd a") (auto simp: refs_Cons)
qed

lemma counted_owner_block:
  assumes "counted ps s" "q \<in> set ps" "cb q = Some c"
  shows "\<exists>b. heap s c = Some b \<and> 0 < shared_cnt b"
proof -
  have "0 < refs c (ps @ stored_owners s)"
    using refs_pos_set[OF assms(2,3)] by (simp add: refs_append)
  then have "0 < shared_of (heap s) c" using countedD[OF assms(1), of c] by simp
  then show ?thesis by (cases "heap s c") (simp_all add: shared_of_def)
qed

lemma counted_delete_cb:
  assumes "counted ps s" "heap s c = Some b" "shared_cnt b = 0"
  shows "counted ps (delete_cb c s)"
proof (rule countedI)
  fix c'
  show "shared_of (heap (delete_cb c s)) c' = refs c' (ps @ stored_owners (delete_cb c s))"
    using countedD[OF assms(1), of c'] assms(2,3)
    by (auto simp: delete_cb_def shared_of_update stored_owners_def shared_of_Some)
qed

lemma counted_weak_ptr_dtor:
  assumes "counted ps s" "weak_ptr_dtor w s = Inr s'"
  shows "counted ps s'"
proof (cases "wcb w")
  case None
  then show ?thesis using assms by (simp add: weak_ptr_dtor_null)
next
  case (Some c)
  show ?thesis
  proof (cases "heap s c")
    case None
    then show ?thesis using assms Some by (simp add: weak_ptr_dtor_def)
  next
    case b: (Some b)
    show ?thesis
    proof (cases "0 < weak_cnt b")
      case False
      then show ?thesis using assms Some b by (simp add: weak_ptr_dtor_def release_weak_def)
    next
      case True
      show ?thesis
      proof (rule countedI)
        fix c'
        show "shared_of (heap s') c' = refs c' (ps @ stored_owners s')"
          using countedD[OF assms(1), of c'] assms(2) b
          by (auto simp: weak_ptr_dtor_eq[OF Some b True] shared_of_update stored_owners_def
              shared_of_Some split: if_splits)
      qed
    qed
  qed
qed

lemma counted_reread:
  assumes "counted ps s2" "reread c (Inr s2) = Inr s'"
  shows "counted ps s'"
  using assms
  by (auto simp: reread_def get_shared_cnt_def counted_delete_cb split: option.splits if_splits)

lemma dtor_counted:
  "counted (p # ps) s \<Longrightarrow> shared_ptr_dtor p s = Inr s' \<Longrightarrow> counted ps s'"
  "counted (owners_in ms @ ps) s \<Longrightarrow> destroy_members ms s = Inr s' \<Longrightarrow> counted ps s'"
  "counted (owners_in [m] @ ps) s \<Longrightarrow> member_dtor m s = Inr s' \<Longrightarrow> counted ps s'"
proof (induction p s and ms s and m s arbitrary: ps s' and ps s' and ps s'
    rule: shared_ptr_dtor_destroy_members_member_dtor.induct)
  case (1 p s)
  show ?case
  proof (cases "cb p")
    case None
    have "counted ps s"
      using "1.prems"(1) None by (simp add: counted_def refs_Cons)
    then show ?thesis using "1.prems"(2) None by (simp add: shared_ptr_dtor_null)
  next
    case (Some c)
    from counted_owner_block[OF "1.prems"(1) _ Some] obtain b where
      b: "heap s c = Some b" "0 < shared_cnt b" by auto
    let ?b1 = "b\<lparr>shared_cnt := shared_cnt b - 1\<rparr>"
    let ?h = "hook_of c (variant b)"
    let ?s1 = "s\<lparr>heap := (heap s)(c \<mapsto> ?b1)\<rparr>"
    let ?s1e = "s\<lparr>heap := (heap s)(c \<mapsto> ?b1), trace := trace s @ [Ev_delete_object c ?h]\<rparr>"
    let ?s1m = "s\<lparr>heap := (heap s)(c \<mapsto> ?b1), trace := trace s @ [Ev_delete_object c ?h],
                  members := filter (\<lambda>m. fst m \<noteq> c) (members s)\<rparr>"
    let ?r = "if shared_cnt b = 1
        then (if object_of ?h = nullptr then Inr ?s1e
              else destroy_members (rev (members_of c s)) ?s1m)
        else Inr ?s1"
    have u: "shared_ptr_dtor p s = reread c ?r"
      by (rule shared_ptr_dtor_unfold[OF Some b])
    then obtain s2 where s2: "?r = Inr s2" "reread c (Inr s2) = Inr s'"
      using "1.prems"(2) by (cases ?r) (simp_all add: reread_def)
    have c1: "shared_of (heap ?s1) c' = refs c' (ps @ stored_owners s)" for c'
      using countedD[OF "1.prems"(1), of c'] Some b
      by (auto simp: shared_of_update refs_Cons shared_of_Some)
    have "counted ps s2"
    proof (cases "shared_cnt b = 1")
      case False
      then have "s2 = ?s1" using s2(1) by simp
      then show ?thesis using c1 by (simp add: counted_def stored_owners_def)
    next
      case one: True
      show ?thesis
      proof (cases "object_of ?h = nullptr")
        case True
        then have "s2 = ?s1e" using s2(1) one by simp
        then show ?thesis using c1 by (simp add: counted_def stored_owners_def)
      next
        case False
        have d: "destroy_members (rev (members_of c s)) ?s1m = Inr s2"
          using s2(1) one False by simp
        have "counted (owners_in (rev (members_of c s)) @ ps) ?s1m"
        proof (rule countedI)
          fix c'
          show "shared_of (heap ?s1m) c' =
                refs c' ((owners_in (rev (members_of c s)) @ ps) @ stored_owners ?s1m)"
            using c1[of c'] refs_stored_split[of c' c "members s"]
            by (simp add: refs_append refs_owners_in_rev members_of_def stored_owners_def)
        qed
        from "1.IH"[of c b ?b1 ?h, OF _ _ _ _ _ _ this d] Some b one False
        show ?thesis
          by (simp add: release_shared_def delete_object_def get_shared_cnt_def)
      qed
    qed
    then show ?thesis using s2(2) by (rule counted_reread)
  qed
next
  case (2 s)
  then show ?case by simp
next
  case (3 m ms s)
  from "3.prems"(2) obtain s1 where
    s1: "member_dtor m s = Inr s1" "destroy_members ms s1 = Inr s'"
    by (auto split: sum.splits)
  have "counted (owners_in [m] @ (owners_in ms @ ps)) s"
    using "3.prems"(1) by (cases m) simp_all
  from "3.IH"(1)[OF this s1(1)] have "counted (owners_in ms @ ps) s1" .
  from "3.IH"(2)[OF s1(1) this s1(2)] show ?case .
next
  case (4 p s)
  then show ?case by simp
next
  case (5 w s)
  then show ?case by (simp add: counted_weak_ptr_dtor)
qed

lemma dtor_no_bad_alloc:
  "shared_ptr_dtor p s \<noteq> Inl (bad_alloc, s')"
  "destroy_members ms s \<noteq> Inl (bad_alloc, s')"
  "member_dtor m s \<noteq> Inl (bad_alloc, s')"
proof (induction p s and ms s and m s arbitrary: s' and s' and s'
    rule: shared_ptr_dtor_destroy_members_member_dtor.induct)
  case (1 p s)
  show ?case
  proof (cases "cb p")
    case None
    then show ?thesis by (simp add: shared_ptr_dtor_null)
  next
    case (Some c)
    show ?thesis
    proof (cases "heap s c")
      case None
      then show ?thesis using Some by (simp add: shared_ptr_dtor_stuck)
    next
      case b: (Some b)
      show ?thesis
      proof (cases "0 < shared_cnt b")
        case False
        then show ?thesis using Some b by (simp add: shared_ptr_dtor_stuck)
      next
        case True
        have "destroy_members (rev (members_of c s))
                (s\<lparr>heap := (heap s)(c \<mapsto> b\<lparr>shared_cnt := shared_cnt b - 1\<rparr>),
                   trace := trace s @ [Ev_delete_object c (hook_of c (variant b))],
                   members := filter (\<lambda>m. fst m \<noteq> c) (members s)\<rparr>) \<noteq> Inl (bad_alloc, s'')"
          if "shared_cnt b = 1" "object_of (hook_of c (variant b)) \<noteq> nullptr" for s''
          using "1.IH"[of c b "b\<lparr>shared_cnt := shared_cnt b - 1\<rparr>" "hook_of c (variant b)" s'']
            Some b True that
          by (simp add: release_shared_def delete_object_def get_shared_cnt_def)
        then show ?thesis
          unfolding shared_ptr_dtor_unfold[OF Some b True]
          by (intro reread_no_bad_alloc) auto
      qed
    qed
  qed
next
  case (2 s)
  then show ?case by simp
next
  case (3 m ms s)
  then show ?case by (auto split: sum.splits)
next
  case (4 p s)
  then show ?case by simp
next
  case (5 w s)
  then show ?case by (simp add: weak_ptr_dtor_no_bad_alloc)
qed

section \<open>The weak counters count the observing pointers\<close>

lemma wcountedI:
  "(\<And>c. weak_of (heap s) c = wrefs c (ws @ stored_observers s)) \<Longrightarrow> wcounted ws s"
  by (simp add: wcounted_def)

lemma wcountedD: "wcounted ws s \<Longrightarrow> weak_of (heap s) c = wrefs c (ws @ stored_observers s)"
  by (simp add: wcounted_def)

lemma weak_of_update:
  "weak_of (h(c \<mapsto> b)) c' = (if c' = c then weak_cnt b else weak_of h c')"
  "weak_of (h(c := None)) c' = (if c' = c then 0 else weak_of h c')"
  by (simp_all add: weak_of_def)

lemma weak_of_Some: "h c = Some b \<Longrightarrow> weak_of h c = weak_cnt b"
  by (simp add: weak_of_def)

lemma wrefs_Cons: "wrefs c (w # ws) = (if wcb w = Some c then 1 else 0) + wrefs c ws"
  by (simp add: wrefs_def)

lemma observers_in_append: "observers_in (xs @ ys) = observers_in xs @ observers_in ys"
  by (induction xs rule: observers_in.induct) simp_all

lemma wrefs_observers_in_rev: "wrefs c (observers_in (rev xs)) = wrefs c (observers_in xs)"
  by (induction xs rule: observers_in.induct)
    (simp_all add: observers_in_append wrefs_append wrefs_Cons wrefs_Nil)

lemma wrefs_stored_split:
  "wrefs c' (observers_in (map snd (filter (\<lambda>m. fst m = c) ms))) +
   wrefs c' (observers_in (map snd (filter (\<lambda>m. fst m \<noteq> c) ms))) =
   wrefs c' (observers_in (map snd ms))"
proof (induction ms)
  case Nil
  then show ?case by (simp add: wrefs_Nil)
next
  case (Cons a ms)
  then show ?case by (cases a; cases "snd a") (auto simp: wrefs_Cons)
qed

lemma wcounted_delete_cb:
  assumes "wcounted ws s" "heap s c = Some b" "weak_cnt b = 0"
  shows "wcounted ws (delete_cb c s)"
proof (rule wcountedI)
  fix c'
  show "weak_of (heap (delete_cb c s)) c' = wrefs c' (ws @ stored_observers (delete_cb c s))"
    using wcountedD[OF assms(1), of c'] assms(2,3)
    by (auto simp: delete_cb_def weak_of_update stored_observers_def weak_of_Some)
qed

lemma wcounted_weak_ptr_dtor:
  assumes "wcounted (w # ws) s" "weak_ptr_dtor w s = Inr s'"
  shows "wcounted ws s'"
proof (cases "wcb w")
  case None
  have "wcounted ws s" using assms(1) None by (simp add: wcounted_def wrefs_Cons)
  then show ?thesis using assms(2) None by (simp add: weak_ptr_dtor_null)
next
  case (Some c)
  show ?thesis
  proof (cases "heap s c")
    case None
    then show ?thesis using assms Some by (simp add: weak_ptr_dtor_def)
  next
    case b: (Some b)
    show ?thesis
    proof (cases "0 < weak_cnt b")
      case False
      then show ?thesis using assms Some b by (simp add: weak_ptr_dtor_def release_weak_def)
    next
      case True
      show ?thesis
      proof (rule wcountedI)
        fix c'
        show "weak_of (heap s') c' = wrefs c' (ws @ stored_observers s')"
          using wcountedD[OF assms(1), of c'] assms(2) b Some True
          by (auto simp: weak_ptr_dtor_eq[OF Some b True] weak_of_update stored_observers_def
              weak_of_Some wrefs_Cons split: if_splits)
      qed
    qed
  qed
qed

lemma wcounted_reread:
  assumes "wcounted ws s2" "reread c (Inr s2) = Inr s'"
  shows "wcounted ws s'"
  using assms
  by (auto simp: reread_def get_weak_cnt_def wcounted_delete_cb split: option.splits if_splits)

lemma dtor_wcounted:
  "wcounted ws s \<Longrightarrow> shared_ptr_dtor p s = Inr s' \<Longrightarrow> wcounted ws s'"
  "wcounted (observers_in ms @ ws) s \<Longrightarrow> destroy_members ms s = Inr s' \<Longrightarrow> wcounted ws s'"
  "wcounted (observers_in [m] @ ws) s \<Longrightarrow> member_dtor m s = Inr s' \<Longrightarrow> wcounted ws s'"
proof (induction p s and ms s and m s arbitrary: ws s' and ws s' and ws s'
    rule: shared_ptr_dtor_destroy_members_member_dtor.induct)
  case (1 p s)
  show ?case
  proof (cases "cb p")
    case None
    then show ?thesis using "1.prems" by (simp add: shared_ptr_dtor_null)
  next
    case (Some c)
    obtain b where b: "heap s c = Some b" "0 < shared_cnt b"
      using "1.prems"(2) Some shared_ptr_dtor_stuck[of p c s]
      by (cases "heap s c") auto
    let ?b1 = "b\<lparr>shared_cnt := shared_cnt b - 1\<rparr>"
    let ?h = "hook_of c (variant b)"
    let ?s1 = "s\<lparr>heap := (heap s)(c \<mapsto> ?b1)\<rparr>"
    let ?s1e = "s\<lparr>heap := (heap s)(c \<mapsto> ?b1), trace := trace s @ [Ev_delete_object c ?h]\<rparr>"
    let ?s1m = "s\<lparr>heap := (heap s)(c \<mapsto> ?b1), trace := trace s @ [Ev_delete_object c ?h],
                  members := filter (\<lambda>m. fst m \<noteq> c) (members s)\<rparr>"
    let ?r = "if shared_cnt b = 1
        then (if object_of ?h = nullptr then Inr ?s1e
              else destroy_members (rev (members_of c s)) ?s1m)
        else Inr ?s1"
    have u: "shared_ptr_dtor p s = reread c ?r"
      by (rule shared_ptr_dtor_unfold[OF Some b])
    then obtain s2 where s2: "?r = Inr s2" "reread c (Inr s2) = Inr s'"
      using "1.prems"(2) by (cases ?r) (simp_all add: reread_def)
    have c1: "weak_of (heap ?s1) c' = wrefs c' (ws @ stored_observers s)" for c'
      using wcountedD[OF "1.prems"(1), of c'] b
      by (auto simp: weak_of_update weak_of_Some)
    have "wcounted ws s2"
    proof (cases "shared_cnt b = 1")
      case False
      then have "s2 = ?s1" using s2(1) by simp
      then show ?thesis using c1 by (simp add: wcounted_def stored_observers_def)
    next
      case one: True
      show ?thesis
      proof (cases "object_of ?h = nullptr")
        case True
        then have "s2 = ?s1e" using s2(1) one by simp
        then show ?thesis using c1 by (simp add: wcounted_def stored_observers_def)
      next
        case False
        have d: "destroy_members (rev (members_of c s)) ?s1m = Inr s2"
          using s2(1) one False by simp
        have "wcounted (observers_in (rev (members_of c s)) @ ws) ?s1m"
        proof (rule wcountedI)
          fix c'
          show "weak_of (heap ?s1m) c' =
                wrefs c' ((observers_in (rev (members_of c s)) @ ws) @ stored_observers ?s1m)"
            using c1[of c'] wrefs_stored_split[of c' c "members s"]
            by (simp add: wrefs_append wrefs_observers_in_rev members_of_def
                stored_observers_def)
        qed
        from "1.IH"[of c b ?b1 ?h, OF _ _ _ _ _ _ this d] Some b one False
        show ?thesis
          by (simp add: release_shared_def delete_object_def get_shared_cnt_def)
      qed
    qed
    then show ?thesis using s2(2) by (rule wcounted_reread)
  qed
next
  case (2 s)
  then show ?case by simp
next
  case (3 m ms s)
  from "3.prems"(2) obtain s1 where
    s1: "member_dtor m s = Inr s1" "destroy_members ms s1 = Inr s'"
    by (auto split: sum.splits)
  have "wcounted (observers_in [m] @ (observers_in ms @ ws)) s"
    using "3.prems"(1) by (cases m) simp_all
  from "3.IH"(1)[OF this s1(1)] have "wcounted (observers_in ms @ ws) s1" .
  from "3.IH"(2)[OF s1(1) this s1(2)] show ?case .
next
  case (4 p s)
  then show ?case by simp
next
  case (5 w s)
  then show ?case by (simp add: wcounted_weak_ptr_dtor)
qed

section \<open>The statements\<close>

lemma keptI:
  "hooks_ok s \<Longrightarrow> counted (owners s) s \<Longrightarrow> wcounted (observers s) s \<Longrightarrow> kept s"
  by (simp add: kept_def)

lemma kept_init: "kept init"
  by (simp add: kept_def hooks_ok_def hooked_def counted_def wcounted_def init_def
      shared_of_def weak_of_def refs_def wrefs_def stored_owners_def stored_observers_def)

lemma kept_owners:
  assumes "kept s" "\<And>c. refs c ps = refs c (owners s)"
  shows "kept (s\<lparr>owners := ps\<rparr>)"
  using assms hooks_ok_frame[of "s\<lparr>owners := ps\<rparr>" s]
  by (simp add: kept_def counted_def wcounted_def refs_append stored_owners_def
      stored_observers_def)

lemma kept_observers:
  assumes "kept s" "\<And>c. wrefs c ws = wrefs c (observers s)"
  shows "kept (s\<lparr>observers := ws\<rparr>)"
  using assms hooks_ok_frame[of "s\<lparr>observers := ws\<rparr>" s]
  by (simp add: kept_def counted_def wcounted_def wrefs_append stored_owners_def
      stored_observers_def)

lemma kept_add_wnull: "kept s \<Longrightarrow> wcb q = None \<Longrightarrow> kept (s\<lparr>observers := observers s @ [q]\<rparr>)"
  by (rule kept_observers) (simp_all add: wrefs_append wrefs_single)

lemma kept_add_null: "kept s \<Longrightarrow> cb q = None \<Longrightarrow> kept (s\<lparr>owners := owners s @ [q]\<rparr>)"
  by (rule kept_owners) (simp_all add: refs_append refs_single)

lemma kept_inc_shared:
  assumes "kept s" "heap s c = Some b" "0 < shared_cnt b" "cb q = Some c"
  shows "kept (s\<lparr>heap := (heap s)(c \<mapsto> b\<lparr>shared_cnt := Suc (shared_cnt b)\<rparr>),
               owners := owners s @ [q]\<rparr>)"
    (is "kept ?s'")
proof (rule keptI)
  have "hooks_ok (s\<lparr>heap := (heap s)(c \<mapsto> b\<lparr>shared_cnt := Suc (shared_cnt b)\<rparr>)\<rparr>)"
    using assms(1) by (intro hooks_ok_update[OF _ assms(2)]) (simp_all add: kept_def assms(3))
  then show "hooks_ok ?s'"
    using hooks_ok_frame[of ?s' "s\<lparr>heap := (heap s)(c \<mapsto> b\<lparr>shared_cnt := Suc (shared_cnt b)\<rparr>)\<rparr>"]
    by simp
  show "counted (owners ?s') ?s'"
  proof (rule countedI)
    fix c'
    show "shared_of (heap ?s') c' = refs c' (owners ?s' @ stored_owners ?s')"
      using countedD[of "owners s" s c'] assms
      by (auto simp: kept_def shared_of_update shared_of_Some refs_append refs_Cons
          stored_owners_def)
  qed
  show "wcounted (observers ?s') ?s'"
  proof (rule wcountedI)
    fix c'
    show "weak_of (heap ?s') c' = wrefs c' (observers ?s' @ stored_observers ?s')"
      using wcountedD[of "observers s" s c'] assms
      by (auto simp: kept_def weak_of_update weak_of_Some stored_observers_def)
  qed
qed

lemma kept_inc_weak:
  assumes "kept s" "heap s c = Some b" "wcb q = Some c"
  shows "kept (s\<lparr>heap := (heap s)(c \<mapsto> b\<lparr>weak_cnt := Suc (weak_cnt b)\<rparr>),
               observers := observers s @ [q]\<rparr>)" (is "kept ?s'")
proof (rule keptI)
  have "hooks_ok (s\<lparr>heap := (heap s)(c \<mapsto> b\<lparr>weak_cnt := Suc (weak_cnt b)\<rparr>)\<rparr>)"
    using assms(1) by (intro hooks_ok_update[OF _ assms(2)]) (simp_all add: kept_def)
  then show "hooks_ok ?s'"
    using hooks_ok_frame[of ?s' "s\<lparr>heap := (heap s)(c \<mapsto> b\<lparr>weak_cnt := Suc (weak_cnt b)\<rparr>)\<rparr>"]
    by simp
  show "counted (owners ?s') ?s'"
  proof (rule countedI)
    fix c'
    show "shared_of (heap ?s') c' = refs c' (owners ?s' @ stored_owners ?s')"
      using countedD[of "owners s" s c'] assms
      by (auto simp: kept_def shared_of_update shared_of_Some stored_owners_def)
  qed
  show "wcounted (observers ?s') ?s'"
  proof (rule wcountedI)
    fix c'
    show "weak_of (heap ?s') c' = wrefs c' (observers ?s' @ stored_observers ?s')"
      using wcountedD[of "observers s" s c'] assms
      by (auto simp: kept_def weak_of_update weak_of_Some wrefs_append wrefs_Cons
          stored_observers_def)
  qed
qed

lemma kept_new_block:
  assumes "kept s"
  shows "kept (s\<lparr>heap := (heap s)(next_cb s \<mapsto> \<lparr>shared_cnt = 1, weak_cnt = 0, variant = v\<rparr>),
            next_cb := Suc (next_cb s),
            trace := trace s @ [Ev_new (next_cb s) v],
            owners := owners s @ [\<lparr>ptr = p, cb = Some (next_cb s)\<rparr>]\<rparr>)"
    (is "kept ?s'")
proof (rule keptI)
  let ?s1 = "s\<lparr>heap := (heap s)(next_cb s \<mapsto> \<lparr>shared_cnt = 1, weak_cnt = 0, variant = v\<rparr>),
            next_cb := Suc (next_cb s),
            trace := trace s @ [Ev_new (next_cb s) v]\<rparr>"
  have h: "hooks_ok s" using assms by (simp add: kept_def)
  have "hooks_ok ?s1" by (rule hooks_ok_new[OF h])
  then show "hooks_ok ?s'" using hooks_ok_frame[of ?s' ?s1] by simp
  have z: "shared_of (heap s) (next_cb s) = 0"
    using hooks_ok_fresh(1)[OF h order_refl] by (simp add: shared_of_def)
  show "counted (owners ?s') ?s'"
  proof (rule countedI)
    fix c'
    show "shared_of (heap ?s') c' = refs c' (owners ?s' @ stored_owners ?s')"
      using countedD[of "owners s" s c'] assms z
      by (auto simp: kept_def shared_of_update refs_append refs_Cons stored_owners_def)
  qed
  have w: "weak_of (heap s) (next_cb s) = 0"
    using hooks_ok_fresh(1)[OF h order_refl] by (simp add: weak_of_def)
  show "wcounted (observers ?s') ?s'"
  proof (rule wcountedI)
    fix c'
    show "weak_of (heap ?s') c' = wrefs c' (observers ?s' @ stored_observers ?s')"
      using wcountedD[of "observers s" s c'] assms w
      by (auto simp: kept_def weak_of_update stored_observers_def)
  qed
qed

lemma kept_handler:
  assumes "kept s"
  shows "kept (s\<lparr>trace := trace s @ [Ev_handler d p]\<rparr>)"
  using assms hooks_ok_handler[of s d p]
  by (simp add: kept_def counted_def wcounted_def stored_owners_def stored_observers_def)

lemma ends_well_Inr: "kept s' \<Longrightarrow> extends s s' \<Longrightarrow> ends_well s (Inr s')"
  by (simp add: ends_well_def)

lemma ends_well_same: "kept s \<Longrightarrow> ends_well s (Inr s)"
  by (simp add: ends_well_def extends_refl)

lemma ends_well_stuck:
  "kept s \<Longrightarrow> e \<noteq> bad_alloc \<Longrightarrow> ends_well s (Inl (e, s))"
  by (simp add: ends_well_def extends_refl kept_def)

lemma adds_ownerI:
  "kept s' \<Longrightarrow> extends s s' \<Longrightarrow> length (owners s') = Suc (length (owners s)) \<Longrightarrow>
   adds_owner s (Inr s')"
  by (simp add: adds_owner_def ends_well_def)

lemma adds_observerI:
  "kept s' \<Longrightarrow> extends s s' \<Longrightarrow> length (observers s') = Suc (length (observers s)) \<Longrightarrow>
   adds_observer s (Inr s')"
  by (simp add: adds_observer_def ends_well_def)

lemma adds_owner_ends_well: "adds_owner s r \<Longrightarrow> ends_well s r"
  by (simp add: adds_owner_def)

lemma adds_observer_ends_well: "adds_observer s r \<Longrightarrow> ends_well s r"
  by (simp add: adds_observer_def)

lemma sp_default_adds: "kept s \<Longrightarrow> adds_owner s (sp_default s)"
  by (simp add: sp_default_def new_owner_def shared_ptr_default_def adds_ownerI kept_add_null
      extends_def)

lemma sp_adopt_adds: "kept s \<Longrightarrow> adds_owner s (sp_adopt p d ok s)"
  using kept_new_block[where s=s and v="cb_separate p d" and p=p]
    kept_handler[where s=s and d=d and p=p]
  by (cases ok)
    (simp_all add: sp_adopt_def new_owner_def shared_ptr_adopt_ok shared_ptr_adopt_fail
      adds_owner_def ends_well_def extends_def kept_def)

lemma sp_make_adds: "kept s \<Longrightarrow> adds_owner s (sp_make args ok s)"
  using kept_new_block[where s=s and v="cb_inplace_ctor (map named args)"
      and p="Storage (next_cb s)"]
  by (cases ok)
    (simp_all add: sp_make_def new_owner_def make_shared_ok make_shared_fail
      adds_owner_def ends_well_def extends_def kept_def)

lemma kept_owner_block:
  assumes "kept s" "i < length (owners s)" "cb (owners s ! i) = Some c"
  shows "\<exists>b. heap s c = Some b \<and> 0 < shared_cnt b"
  using counted_owner_block[of "owners s" s "owners s ! i" c] assms by (simp add: kept_def)

lemma sp_alias_adds:
  assumes "kept s" "i < length (owners s)"
  shows "adds_owner s (sp_alias i p s)"
proof (cases "cb (owners s ! i)")
  case None
  then show ?thesis using assms(1)
    by (simp add: sp_alias_def shared_ptr_alias_null new_owner_def adds_ownerI kept_add_null
        extends_def)
next
  case (Some c)
  from kept_owner_block[OF assms Some] obtain b where
    b: "heap s c = Some b" "0 < shared_cnt b" by blast
  have "kept (s\<lparr>heap := (heap s)(c \<mapsto> b\<lparr>shared_cnt := Suc (shared_cnt b)\<rparr>),
              owners := owners s @ [\<lparr>ptr = p, cb = Some c\<rparr>]\<rparr>)"
    by (rule kept_inc_shared[OF assms(1) b]) simp
  then show ?thesis
    by (simp add: sp_alias_def shared_ptr_alias_eq[OF b(1) Some] new_owner_def adds_ownerI
        extends_def)
qed

lemma sp_copy_adds:
  assumes "kept s" "i < length (owners s)"
  shows "adds_owner s (sp_copy i s)"
  using sp_alias_adds[OF assms, of "ptr (owners s ! i)"]
  by (simp add: sp_copy_def sp_alias_def shared_ptr_copy_def)

lemma sp_move_adds:
  assumes "kept s" "i < length (owners s)"
  shows "adds_owner s (sp_move i s)"
proof -
  have "refs c ((owners s)[i := shared_ptr_default] @ [owners s ! i]) = refs c (owners s)" for c
    using refs_update[OF assms(2), of c shared_ptr_default]
    by (simp add: refs_append refs_single shared_ptr_default_def)
  then have "kept (s\<lparr>owners := (owners s)[i := shared_ptr_default] @ [owners s ! i]\<rparr>)"
    by (rule kept_owners[OF assms(1)])
  then show ?thesis
    by (simp add: sp_move_def shared_ptr_move_eq adds_ownerI extends_def)
qed

lemma sp_dtor_ends_well:
  assumes "kept s" "i < length (owners s)"
  shows "ends_well s (sp_dtor i s)"
proof -
  let ?r = "shared_ptr_dtor (owners s ! i) s"
  have h: "hooks_ok (final ?r)" "continues s (final ?r)"
    using dtor_hooks_ok(1)[of s "owners s ! i"] assms(1) by (simp_all add: kept_def)
  show ?thesis
  proof (cases ?r)
    case (Inl e)
    then obtain er s1 where e: "?r = Inl (er, s1)" by (cases e) auto
    then have "er \<noteq> bad_alloc" using dtor_no_bad_alloc(1)[of "owners s ! i" s s1] by auto
    then show ?thesis using h e
      by (simp add: sp_dtor_def ends_well_def continues_extends)
  next
    case (Inr s1)
    have "counted (owners s ! i # remove_nth i (owners s)) s"
    proof (rule countedI)
      fix c
      show "shared_of (heap s) c =
            refs c ((owners s ! i # remove_nth i (owners s)) @ stored_owners s)"
        using countedD[of "owners s" s c] assms refs_remove[OF assms(2), of c]
        by (simp add: kept_def refs_append refs_Cons)
    qed
    from dtor_counted(1)[OF this Inr] have c1: "counted (remove_nth i (owners s)) s1" .
    have w1: "wcounted (observers s) s1"
      using dtor_wcounted(1)[OF _ Inr] assms(1) by (simp add: kept_def)
    have o: "owners s1 = owners s" "observers s1 = observers s"
      using h(2) Inr by (simp_all add: continues_def)
    have "kept (s1\<lparr>owners := remove_nth i (owners s1)\<rparr>)"
    proof (rule keptI)
      show "hooks_ok (s1\<lparr>owners := remove_nth i (owners s1)\<rparr>)"
        using h(1) Inr hooks_ok_frame[of "s1\<lparr>owners := remove_nth i (owners s1)\<rparr>" s1] by simp
      show "counted (owners (s1\<lparr>owners := remove_nth i (owners s1)\<rparr>))
              (s1\<lparr>owners := remove_nth i (owners s1)\<rparr>)"
        using c1 o by (simp add: counted_def stored_owners_def)
      show "wcounted (observers (s1\<lparr>owners := remove_nth i (owners s1)\<rparr>))
              (s1\<lparr>owners := remove_nth i (owners s1)\<rparr>)"
        using w1 o by (simp add: wcounted_def stored_observers_def)
    qed
    moreover have "extends s (s1\<lparr>owners := remove_nth i (owners s1)\<rparr>)"
      using h(2) Inr by (simp add: continues_def extends_def)
    ultimately show ?thesis using Inr by (simp add: sp_dtor_def ends_well_def)
  qed
qed

lemma sp_swap_kept:
  assumes "kept s" "i < length (owners s)" "j < length (owners s)"
  shows "kept (s\<lparr>owners := (owners s)[i := owners s ! j, j := owners s ! i]\<rparr>)"
  by (rule kept_owners[OF assms(1)]) (rule refs_swap[OF assms(2,3)])

lemma ends_well_trans:
  assumes "extends s s1" "ends_well s1 r"
  shows "ends_well s r"
  using assms by (cases r) (auto simp: ends_well_def intro: extends_trans)

lemma sp_swap_temporary_ends_well:
  assumes "adds_owner s r" "i < length (owners s)"
  shows "ends_well s (sp_swap_temporary i r)"
proof (cases r)
  case (Inl e)
  then show ?thesis using assms(1)
    by (simp add: sp_swap_temporary_def seq_def adds_owner_def)
next
  case (Inr s1)
  then have s1: "kept s1" "extends s s1" "length (owners s1) = Suc (length (owners s))"
    using assms(1) by (simp_all add: adds_owner_def ends_well_def)
  let ?n = "length (owners s1) - 1"
  let ?s2 = "s1\<lparr>owners := (owners s1)[?n := owners s1 ! i, i := owners s1 ! ?n]\<rparr>"
  have n: "?n < length (owners s1)" "i < length (owners s1)" using s1(3) assms(2) by simp_all
  have k2: "kept ?s2" by (rule sp_swap_kept[OF s1(1) n])
  have "ends_well ?s2 (sp_dtor ?n ?s2)"
    by (rule sp_dtor_ends_well[OF k2]) (use n in simp)
  then have "ends_well s (sp_dtor ?n ?s2)"
    by (rule ends_well_trans[rotated]) (use s1(2) in \<open>simp add: extends_def\<close>)
  then show ?thesis using Inr
    by (simp add: sp_swap_temporary_def seq_def sp_swap_def shared_ptr_swap_eq)
qed

lemma wp_default_adds: "kept s \<Longrightarrow> adds_observer s (wp_default s)"
  by (simp add: wp_default_def new_observer_def adds_observerI kept_add_wnull extends_def
      weak_ptr_default_def)

lemma wp_ctor_adds:
  assumes "kept s"
  shows "adds_observer s (new_observer (weak_ptr_ctor p k s))"
proof (cases k)
  case None
  then show ?thesis using assms
    by (simp add: weak_ptr_ctor_null new_observer_def adds_observerI kept_add_wnull extends_def)
next
  case (Some c)
  show ?thesis
  proof (cases "heap s c")
    case None
    then show ?thesis using assms Some
      by (simp add: weak_ptr_ctor_def cb_inc_weak_def new_observer_def adds_observer_def
          ends_well_stuck)
  next
    case b: (Some b)
    have "kept (s\<lparr>heap := (heap s)(c \<mapsto> b\<lparr>weak_cnt := Suc (weak_cnt b)\<rparr>),
                observers := observers s @ [\<lparr>wptr = p, wcb = Some c\<rparr>]\<rparr>)"
      by (rule kept_inc_weak[OF assms b]) simp
    then show ?thesis
      by (simp add: Some weak_ptr_ctor_eq[OF b] new_observer_def adds_observerI extends_def)
  qed
qed

lemma wp_copy_adds: "kept s \<Longrightarrow> adds_observer s (wp_copy i s)"
  by (simp add: wp_copy_def weak_ptr_copy_def wp_ctor_adds)

lemma wp_from_shared_adds: "kept s \<Longrightarrow> adds_observer s (wp_from_shared i s)"
  by (simp add: wp_from_shared_def weak_ptr_from_shared_def wp_ctor_adds)

lemma wp_move_adds:
  assumes "kept s" "i < length (observers s)"
  shows "adds_observer s (wp_move i s)"
proof -
  have "wrefs c ((observers s)[i := weak_ptr_default] @ [observers s ! i]) =
        wrefs c (observers s)" for c
    using wrefs_update[OF assms(2), of c weak_ptr_default]
    by (simp add: wrefs_append wrefs_single weak_ptr_default_def)
  then have "kept (s\<lparr>observers := (observers s)[i := weak_ptr_default] @ [observers s ! i]\<rparr>)"
    by (rule kept_observers[OF assms(1)])
  then show ?thesis
    by (simp add: wp_move_def weak_ptr_move_eq adds_observerI extends_def)
qed

lemma wp_dtor_ends_well:
  assumes "kept s" "i < length (observers s)"
  shows "ends_well s (wp_dtor i s)"
proof -
  let ?r = "weak_ptr_dtor (observers s ! i) s"
  have h: "hooks_ok (final ?r)" "continues s (final ?r)"
    using weak_ptr_dtor_hooks_ok[of s "observers s ! i"] assms by (simp_all add: kept_def)
  show ?thesis
  proof (cases ?r)
    case (Inl e)
    then obtain er s1 where e: "?r = Inl (er, s1)" by (cases e) auto
    then have "er \<noteq> bad_alloc" using weak_ptr_dtor_no_bad_alloc[of "observers s ! i" s s1] by auto
    then show ?thesis using h e
      by (simp add: wp_dtor_def ends_well_def continues_extends)
  next
    case (Inr s1)
    have c1: "counted (owners s) s1"
      using counted_weak_ptr_dtor[OF _ Inr] assms by (simp add: kept_def)
    have "wcounted (observers s ! i # remove_nth i (observers s)) s"
    proof (rule wcountedI)
      fix c
      show "weak_of (heap s) c =
            wrefs c ((observers s ! i # remove_nth i (observers s)) @ stored_observers s)"
        using wcountedD[of "observers s" s c] assms wrefs_remove[OF assms(2), of c]
        by (simp add: kept_def wrefs_append wrefs_Cons)
    qed
    from wcounted_weak_ptr_dtor[OF this Inr]
    have w1: "wcounted (remove_nth i (observers s)) s1" .
    have o: "owners s1 = owners s" "observers s1 = observers s"
      using h(2) Inr by (simp_all add: continues_def)
    have "kept (s1\<lparr>observers := remove_nth i (observers s1)\<rparr>)"
    proof (rule keptI)
      show "hooks_ok (s1\<lparr>observers := remove_nth i (observers s1)\<rparr>)"
        using h(1) Inr hooks_ok_frame[of "s1\<lparr>observers := remove_nth i (observers s1)\<rparr>" s1]
        by simp
      show "counted (owners (s1\<lparr>observers := remove_nth i (observers s1)\<rparr>))
              (s1\<lparr>observers := remove_nth i (observers s1)\<rparr>)"
        using c1 o by (simp add: counted_def stored_owners_def)
      show "wcounted (observers (s1\<lparr>observers := remove_nth i (observers s1)\<rparr>))
              (s1\<lparr>observers := remove_nth i (observers s1)\<rparr>)"
        using w1 o by (simp add: wcounted_def stored_observers_def)
    qed
    moreover have "extends s (s1\<lparr>observers := remove_nth i (observers s1)\<rparr>)"
      using h(2) Inr by (simp add: continues_def extends_def)
    ultimately show ?thesis using Inr by (simp add: wp_dtor_def ends_well_def)
  qed
qed

lemma wp_swap_kept:
  assumes "kept s" "i < length (observers s)" "j < length (observers s)"
  shows "kept (s\<lparr>observers := (observers s)[i := observers s ! j, j := observers s ! i]\<rparr>)"
  by (rule kept_observers[OF assms(1)]) (rule wrefs_swap[OF assms(2,3)])

lemma wp_swap_temporary_ends_well:
  assumes "adds_observer s r" "i < length (observers s)"
  shows "ends_well s (wp_swap_temporary i r)"
proof (cases r)
  case (Inl e)
  then show ?thesis using assms(1)
    by (simp add: wp_swap_temporary_def seq_def adds_observer_def)
next
  case (Inr s1)
  then have s1: "kept s1" "extends s s1" "length (observers s1) = Suc (length (observers s))"
    using assms(1) by (simp_all add: adds_observer_def ends_well_def)
  let ?n = "length (observers s1) - 1"
  let ?s2 = "s1\<lparr>observers := (observers s1)[?n := observers s1 ! i, i := observers s1 ! ?n]\<rparr>"
  have n: "?n < length (observers s1)" "i < length (observers s1)"
    using s1(3) assms(2) by simp_all
  have k2: "kept ?s2" by (rule wp_swap_kept[OF s1(1) n])
  have "ends_well ?s2 (wp_dtor ?n ?s2)"
    by (rule wp_dtor_ends_well[OF k2]) (use n in simp)
  then have "ends_well s (wp_dtor ?n ?s2)"
    by (rule ends_well_trans[rotated]) (use s1(2) in \<open>simp add: extends_def\<close>)
  then show ?thesis using Inr
    by (simp add: wp_swap_temporary_def seq_def wp_swap_def weak_ptr_swap_eq)
qed

lemma wp_lock_adds:
  assumes "kept s"
  shows "adds_owner s (wp_lock i s)"
proof (cases "wcb (observers s ! i)")
  case None
  then show ?thesis using assms
    by (simp add: wp_lock_def lock_null new_owner_def adds_ownerI kept_add_null
        shared_ptr_default_def extends_def)
next
  case (Some c)
  show ?thesis
  proof (cases "heap s c")
    case None
    then show ?thesis using assms Some
      by (simp add: wp_lock_def lock_def new_owner_def adds_owner_def ends_well_stuck)
  next
    case b: (Some b)
    show ?thesis
    proof (cases "shared_cnt b = 0")
      case True
      then show ?thesis using assms
        by (simp add: wp_lock_def lock_eq[OF Some b] new_owner_def adds_ownerI kept_add_null
            shared_ptr_default_def extends_def)
    next
      case False
      have "kept (s\<lparr>heap := (heap s)(c \<mapsto> b\<lparr>shared_cnt := Suc (shared_cnt b)\<rparr>),
                owners := owners s @ [\<lparr>ptr = wptr (observers s ! i), cb = Some c\<rparr>]\<rparr>)"
        by (rule kept_inc_shared[OF assms b]) (use False in simp_all)
      then show ?thesis using False
        by (simp add: wp_lock_def lock_eq[OF Some b] new_owner_def adds_ownerI extends_def)
    qed
  qed
qed

lemma kept_store_owner:
  assumes "kept s" "j < length (owners s)"
  shows "kept (s\<lparr>owners := (owners s)[j := shared_ptr_default],
                members := members s @ [(c, Shared_member (owners s ! j))]\<rparr>)"
    (is "kept ?s'")
proof (rule keptI)
  show "hooks_ok ?s'" using assms(1) hooks_ok_frame[of ?s' s] by (simp add: kept_def)
  show "counted (owners ?s') ?s'"
  proof (rule countedI)
    fix c'
    show "shared_of (heap ?s') c' = refs c' (owners ?s' @ stored_owners ?s')"
      using countedD[of "owners s" s c'] assms(1)
        refs_update[OF assms(2), of c' shared_ptr_default]
      by (simp add: kept_def refs_append refs_single stored_owners_def owners_in_append
          shared_ptr_default_def)
  qed
  show "wcounted (observers ?s') ?s'"
    using assms(1)
    by (simp add: kept_def wcounted_def stored_observers_def observers_in_append)
qed

lemma kept_store_observer:
  assumes "kept s" "j < length (observers s)"
  shows "kept (s\<lparr>observers := (observers s)[j := weak_ptr_default],
                members := members s @ [(c, Weak_member (observers s ! j))]\<rparr>)"
    (is "kept ?s'")
proof (rule keptI)
  show "hooks_ok ?s'" using assms(1) hooks_ok_frame[of ?s' s] by (simp add: kept_def)
  show "counted (owners ?s') ?s'"
    using assms(1) by (simp add: kept_def counted_def stored_owners_def owners_in_append)
  show "wcounted (observers ?s') ?s'"
  proof (rule wcountedI)
    fix c'
    show "weak_of (heap ?s') c' = wrefs c' (observers ?s' @ stored_observers ?s')"
      using wcountedD[of "observers s" s c'] assms(1)
        wrefs_update[OF assms(2), of c' weak_ptr_default]
      by (simp add: kept_def wrefs_append wrefs_single stored_observers_def
          observers_in_append weak_ptr_default_def)
  qed
qed

lemma sp_store_ends_well:
  assumes "kept s" "j < length (owners s)"
  shows "ends_well s (sp_store j i s)"
  using assms kept_store_owner[OF assms]
  by (auto simp: sp_store_def shared_ptr_move_eq ends_well_def extends_def
      split: option.splits)

lemma wp_store_ends_well:
  assumes "kept s" "j < length (observers s)"
  shows "ends_well s (wp_store j i s)"
  using assms kept_store_observer[OF assms]
  by (auto simp: wp_store_def weak_ptr_move_eq ends_well_def extends_def
      split: option.splits)

lemma exec_ends_well:
  assumes "kept s"
  shows "ends_well s (exec x s)"
proof (cases x)
  case Sp_default
  then show ?thesis using sp_default_adds[OF assms] by (simp add: adds_owner_ends_well)
next
  case (Sp_adopt p d ok)
  then show ?thesis using sp_adopt_adds[OF assms, of p d ok] by (simp add: adds_owner_ends_well)
next
  case (Sp_make args ok)
  then show ?thesis using sp_make_adds[OF assms, of args ok] by (simp add: adds_owner_ends_well)
next
  case (Sp_alias i p)
  then show ?thesis using sp_alias_adds[OF assms, of i p] assms
    by (auto intro: adds_owner_ends_well ends_well_same)
next
  case (Sp_copy i)
  then show ?thesis using sp_copy_adds[OF assms, of i] assms
    by (auto intro: adds_owner_ends_well ends_well_same)
next
  case (Sp_move i)
  then show ?thesis using sp_move_adds[OF assms, of i] assms
    by (auto intro: adds_owner_ends_well ends_well_same)
next
  case (Sp_dtor i)
  then show ?thesis using sp_dtor_ends_well[OF assms, of i] assms
    by (auto intro: ends_well_same)
next
  case (Sp_assign i j)
  then show ?thesis
    using sp_swap_temporary_ends_well[OF sp_copy_adds[OF assms], of j i] assms
    by (auto intro: ends_well_same)
next
  case (Sp_move_assign i j)
  then show ?thesis
    using sp_swap_temporary_ends_well[OF sp_move_adds[OF assms], of j i] assms
    by (auto intro: ends_well_same)
next
  case (Sp_reset i)
  then show ?thesis
    using sp_swap_temporary_ends_well[OF sp_default_adds[OF assms], of i] assms
    by (auto intro: ends_well_same)
next
  case (Sp_reset_ptr i p d ok)
  then show ?thesis
    using sp_swap_temporary_ends_well[OF sp_adopt_adds[OF assms, of p d ok], of i] assms
    by (auto intro: ends_well_same)
next
  case (Sp_swap i j)
  then show ?thesis using sp_swap_kept[OF assms, of i j] assms
    by (auto simp: sp_swap_def shared_ptr_swap_eq ends_well_def extends_def)
next
  case Wp_default
  then show ?thesis using wp_default_adds[OF assms] by (simp add: adds_observer_ends_well)
next
  case (Wp_copy i)
  then show ?thesis using wp_copy_adds[OF assms, of i] assms
    by (auto intro: adds_observer_ends_well ends_well_same)
next
  case (Wp_from_shared i)
  then show ?thesis using wp_from_shared_adds[OF assms, of i] assms
    by (auto intro: adds_observer_ends_well ends_well_same)
next
  case (Wp_move i)
  then show ?thesis using wp_move_adds[OF assms, of i] assms
    by (auto intro: adds_observer_ends_well ends_well_same)
next
  case (Wp_dtor i)
  then show ?thesis using wp_dtor_ends_well[OF assms, of i] assms
    by (auto intro: ends_well_same)
next
  case (Wp_assign i j)
  then show ?thesis
    using wp_swap_temporary_ends_well[OF wp_copy_adds[OF assms, of j], of i] assms
    by (auto intro: ends_well_same)
next
  case (Wp_assign_shared i j)
  then show ?thesis
    using wp_swap_temporary_ends_well[OF wp_from_shared_adds[OF assms, of j], of i] assms
    by (auto intro: ends_well_same)
next
  case (Wp_move_assign i j)
  then show ?thesis
    using wp_swap_temporary_ends_well[OF wp_move_adds[OF assms, of j], of i] assms
    by (auto intro: ends_well_same)
next
  case (Wp_reset i)
  then show ?thesis
    using wp_swap_temporary_ends_well[OF wp_default_adds[OF assms], of i] assms
    by (auto intro: ends_well_same)
next
  case (Wp_swap i j)
  then show ?thesis using wp_swap_kept[OF assms, of i j] assms
    by (auto simp: wp_swap_def weak_ptr_swap_eq ends_well_def extends_def)
next
  case (Wp_lock i)
  then show ?thesis using wp_lock_adds[OF assms, of i] assms
    by (auto intro: adds_owner_ends_well ends_well_same)
qed

lemma perform_ends_well:
  assumes "kept s"
  shows "ends_well s (perform x s)"
proof (cases x)
  case (Stmt y)
  then show ?thesis using exec_ends_well[OF assms, of y] by simp
next
  case (Sp_store j i)
  then show ?thesis using sp_store_ends_well[OF assms, of j i] assms
    by (auto intro: ends_well_same)
next
  case (Wp_store j i)
  then show ?thesis using wp_store_ends_well[OF assms, of j i] assms
    by (auto intro: ends_well_same)
qed

lemma program_ends_well:
  assumes "kept s"
  shows "hooks_ok (final (program xs s)) \<and> extends s (final (program xs s)) \<and>
         (\<forall>s'. program xs s = Inr s' \<longrightarrow> kept s')"
  using assms
proof (induction xs arbitrary: s)
  case Nil
  then show ?case by (simp add: extends_refl kept_def)
next
  case (Cons x xs)
  have g: "ends_well s (perform x s)" by (rule perform_ends_well[OF Cons.prems])
  show ?case
  proof (cases "perform x s")
    case (Inr s1)
    then have s1: "kept s1" "extends s s1" using g by (simp_all add: ends_well_def)
    from Cons.IH[OF s1(1)] s1(2) show ?thesis using Inr
      by (auto intro: extends_trans)
  next
    case (Inl e)
    then obtain er s1 where e: "perform x s = Inl (er, s1)" by (cases e) auto
    show ?thesis
    proof (cases "er = bad_alloc")
      case True
      then have s1: "kept s1" "extends s s1" using g e by (simp_all add: ends_well_def)
      from Cons.IH[OF s1(1)] s1(2) show ?thesis using e True
        by (auto intro: extends_trans)
    next
      case False
      then show ?thesis using g e by (simp add: ends_well_def)
    qed
  qed
qed

text \<open>
  Where a general program has returned, the counters of a block do not exceed the
  number of live pointer objects, variables and members.
\<close>

lemma length_owners_in: "length (owners_in ms) \<le> length ms"
  by (induction ms rule: owners_in.induct) simp_all

lemma length_observers_in: "length (observers_in ms) \<le> length ms"
  by (induction ms rule: observers_in.induct) simp_all

lemma general_counters_bounded:
  assumes "program acts init = Inr s" "heap s c = Some b"
  shows "shared_cnt b \<le> length (owners s) + length (members s) \<and>
         weak_cnt b \<le> length (observers s) + length (members s)"
proof -
  have k: "kept s" using program_ends_well[OF kept_init, of acts] assms(1) by simp
  have "shared_cnt b = refs c (owners s @ stored_owners s)"
    using countedD[of "owners s" s c] k assms(2) by (simp add: kept_def shared_of_def)
  moreover have "refs c (owners s @ stored_owners s) \<le> length (owners s) + length (members s)"
    using refs_le[of c "owners s @ stored_owners s"] length_owners_in[of "map snd (members s)"]
    by (simp add: stored_owners_def)
  moreover have "weak_cnt b = wrefs c (observers s @ stored_observers s)"
    using wcountedD[of "observers s" s c] k assms(2) by (simp add: kept_def weak_of_def)
  moreover have "wrefs c (observers s @ stored_observers s) \<le>
      length (observers s) + length (members s)"
    using wrefs_le[of c "observers s @ stored_observers s"]
      length_observers_in[of "map snd (members s)"]
    by (simp add: stored_observers_def)
  ultimately show ?thesis by simp
qed

section \<open>What one statement adds to the trace\<close>

lemma news_stable:
  assumes "hooks_ok s" "hooks_ok s'" "extends s s'" "c < next_cb s"
  shows "news c (trace s') = news c (trace s)"
proof -
  from assms(3) obtain evs where evs: "trace s' = trace s @ evs"
    by (auto simp: extends_def prefix_def)
  have 1: "length (news c (trace s)) = 1"
    using hooks_okD[OF assms(1), of c] assms(4) by (simp add: hooked_def)
  have 2: "length (news c (trace s')) = 1"
    using hooks_okD[OF assms(2), of c] assms(3,4) by (simp add: hooked_def extends_def)
  have 3: "length (news c (trace s')) = length (news c (trace s)) + length (news c evs)"
    by (simp add: evs news_append)
  show ?thesis using 1 2 3 by (simp add: evs news_append)
qed

lemma hooks_step:
  assumes "hooks_ok s" "hooks_ok s'" "extends s s'" "c < next_cb s"
  shows "hooks_run c (trace s') =
         hooks_run c (trace s) @
           (if 0 < shared_of (heap s) c \<and> shared_of (heap s') c = 0
            then [hook_of c (hd (news c (trace s)))] else [])"
proof -
  from assms(3) obtain evs where evs: "trace s' = trace s @ evs"
    by (auto simp: extends_def prefix_def)
  note n = news_stable[OF assms]
  have a: "hooks_run c (trace s) =
      (if shared_of (heap s) c = 0 then [hook_of c (hd (news c (trace s)))] else [])"
    using hooks_okD[OF assms(1), of c] assms(4) by (simp add: hooked_def)
  have b: "hooks_run c (trace s') =
      (if shared_of (heap s') c = 0 then [hook_of c (hd (news c (trace s)))] else [])"
    using hooks_okD[OF assms(2), of c] n assms(3,4) by (simp add: hooked_def extends_def)
  have c: "hooks_run c (trace s') = hooks_run c (trace s) @ hooks_run c evs"
    by (simp add: evs hooks_run_append)
  show ?thesis
  proof (cases "shared_of (heap s) c = 0")
    case True
    have "length (hooks_run c (trace s')) \<le> 1" using b by simp
    then have "hooks_run c evs = []" using a c True by simp
    then show ?thesis using c True by simp
  next
    case False
    then show ?thesis using a b by simp
  qed
qed

lemma hooks_step_dtor:
  assumes "hooks_ok s" "hooks_ok s'" "continues s s'"
  shows "hooks_run c (trace s') =
         hooks_run c (trace s) @
           (if 0 < shared_of (heap s) c \<and> shared_of (heap s') c = 0
            then [hook_of c (hd (news c (trace s)))] else [])"
proof (cases "c < next_cb s")
  case True
  then show ?thesis using hooks_step[OF assms(1,2) continues_extends[OF assms(3)]] by simp
next
  case False
  then have "next_cb s \<le> c" "next_cb s' \<le> c" using assms(3) by (simp_all add: continues_def)
  then show ?thesis
    using hooks_ok_fresh[OF assms(1), of c] hooks_ok_fresh[OF assms(2), of c]
    by (simp add: shared_of_def)
qed

text \<open>The destructor of the last owner of a block calls the hook before anything else.\<close>

lemma last_owner_calls_hook:
  assumes "hooks_ok s" "cb p = Some c" "heap s c = Some b" "shared_cnt b = 1"
  shows "prefix (trace s @ [Ev_delete_object c (hook_of c (variant b))])
           (trace (final (shared_ptr_dtor p s)))"
proof -
  let ?b1 = "b\<lparr>shared_cnt := shared_cnt b - 1\<rparr>"
  let ?h = "hook_of c (variant b)"
  let ?s1e = "s\<lparr>heap := (heap s)(c \<mapsto> ?b1), trace := trace s @ [Ev_delete_object c ?h]\<rparr>"
  let ?s1m = "s\<lparr>heap := (heap s)(c \<mapsto> ?b1), trace := trace s @ [Ev_delete_object c ?h],
                members := filter (\<lambda>m. fst m \<noteq> c) (members s)\<rparr>"
  let ?r = "if object_of ?h = nullptr then Inr ?s1e
            else destroy_members (rev (members_of c s)) ?s1m"
  have pos: "0 < shared_cnt b" using assms(4) by simp
  have u: "shared_ptr_dtor p s = reread c ?r"
    using shared_ptr_dtor_unfold[OF assms(2,3) pos] assms(4) by simp
  have e: "hooks_ok ?s1e"
    using hooks_ok_hook[OF assms(1,3) pos, of ?b1] assms(4) by simp
  then have m: "hooks_ok ?s1m" using hooks_ok_frame[of ?s1m ?s1e] by simp
  have "continues ?s1e (final ?r)"
  proof (cases "object_of ?h = nullptr")
    case True
    then show ?thesis by (simp add: continues_refl)
  next
    case False
    have "continues ?s1m (final (destroy_members (rev (members_of c s)) ?s1m))"
      using dtor_hooks_ok(2)[OF m] by simp
    then show ?thesis using False by (simp add: continues_def)
  qed
  then have "continues ?s1e (final (reread c ?r))" by (rule reread_continues)
  then show ?thesis unfolding u by (simp add: continues_def)
qed

lemma hooks_run_prefix:
  "prefix xs ys \<Longrightarrow> prefix (hooks_run c xs) (hooks_run c ys)"
  by (auto simp: prefix_def hooks_run_append)

text \<open>The definitions a general program on concrete statements is evaluated with.\<close>

lemmas program_defs = run_defs sp_store_def wp_store_def managed_object_def final_def
  shared_of_def
section \<open>The claims\<close>

text \<open>
  The claims about single operations are stated for the states that a program over
  variables reaches (\<open>run\<close>); the two about the destruction hook and the deallocation
  of the block are stated for the general programs (\<open>program\<close>), where a destructor
  can run inside a hook.
\<close>

text \<open>
  C3. When \<^verbatim>\<open>new\<close> fails in \<^verbatim>\<open>shared_ptr(Y* ptr, Deleter d)\<close>, the constructor ends with
  the exception \<open>bad_alloc\<close>; its only effect is one call \<^verbatim>\<open>d(ptr)\<close> of the supplied
  deleter on the supplied pointer, made before the exception leaves; no block is
  allocated and the statement adds no \<^verbatim>\<open>shared_ptr\<close> object.
\<close>

theorem adopt_failure_calls_deleter_once:
  "shared_ptr_adopt p d False s = Inl (bad_alloc, s\<lparr>trace := trace s @ [Ev_handler d p]\<rparr>) \<and>
   exec (Sp_adopt p d False) s = Inl (bad_alloc, s\<lparr>trace := trace s @ [Ev_handler d p]\<rparr>) \<and>
   heap (s\<lparr>trace := trace s @ [Ev_handler d p]\<rparr>) = heap s \<and>
   owners (s\<lparr>trace := trace s @ [Ev_handler d p]\<rparr>) = owners s"
  by (simp add: shared_ptr_adopt_fail sp_adopt_def new_owner_def)

text \<open>
  C10. The aliasing constructor from a source with no control block stores the
  caller's raw pointer and a null control-block pointer and touches no block. When the
  raw pointer is not null the result converts to true while \<open>use_count\<close> is 0. Its
  destructor releases nothing: the state is the one before, no object and no block is
  destroyed.
\<close>

theorem alias_of_empty_source:
  assumes "cb r = None"
  shows "shared_ptr_alias r p s = Inr (\<lparr>ptr = p, cb = None\<rparr>, s) \<and>
         (p \<noteq> nullptr \<longrightarrow> operator_bool \<lparr>ptr = p, cb = None\<rparr>) \<and>
         use_count \<lparr>ptr = p, cb = None\<rparr> s = Inr 0 \<and>
         shared_ptr_dtor \<lparr>ptr = p, cb = None\<rparr> s = Inr s \<and>
         sp_dtor (length (owners s)) (s\<lparr>owners := owners s @ [\<lparr>ptr = p, cb = None\<rparr>]\<rparr>) = Inr s"
  using assms
  by (simp add: shared_ptr_alias_def operator_bool_def get_def use_count_def
      shared_ptr_dtor.simps sp_dtor_def remove_nth_def)

theorem alias_of_empty_source_witness:
  "shared_ptr_alias shared_ptr_default (Addr 1) init = Inr (\<lparr>ptr = Addr 1, cb = None\<rparr>, init) \<and>
   operator_bool \<lparr>ptr = Addr 1, cb = None\<rparr> \<and>
   use_count \<lparr>ptr = Addr 1, cb = None\<rparr> init = Inr 0 \<and>
   shared_ptr_dtor \<lparr>ptr = Addr 1, cb = None\<rparr> init = Inr init"
  using alias_of_empty_source[of shared_ptr_default "Addr 1" init]
  by (simp add: shared_ptr_default_def)

text \<open>
  C6, as the claim states it, fails: after \<^verbatim>\<open>shared_ptr(nullptr, d)\<close> the counter of the
  new block is 1, so \<open>use_count\<close> is 1, not the 0 of a default-constructed pointer.
\<close>

theorem null_adoption_use_count_counterexample:
  "shared_ptr_adopt nullptr (Deleter 0) True init =
     Inr (\<lparr>ptr = nullptr, cb = Some 0\<rparr>,
          init\<lparr>heap := (heap init)(0 \<mapsto> \<lparr>shared_cnt = 1, weak_cnt = 0,
                                          variant = cb_separate nullptr (Deleter 0)\<rparr>),
               next_cb := Suc 0,
               trace := [Ev_new 0 (cb_separate nullptr (Deleter 0))]\<rparr>) \<and>
   use_count \<lparr>ptr = nullptr, cb = Some 0\<rparr>
     (init\<lparr>heap := (heap init)(0 \<mapsto> \<lparr>shared_cnt = 1, weak_cnt = 0,
                                          variant = cb_separate nullptr (Deleter 0)\<rparr>),
               next_cb := Suc 0,
               trace := [Ev_new 0 (cb_separate nullptr (Deleter 0))]\<rparr>) = Inr 1 \<and>
   use_count shared_ptr_default init = Inr 0"
  by (simp add: shared_ptr_adopt_ok use_count_def get_shared_cnt_def shared_ptr_default_def
      init_def)

text \<open>
  C6, amended. \<^verbatim>\<open>shared_ptr(nullptr, d)\<close> allocates a control block: the result has a
  null raw pointer and a non-null control-block pointer, converts to false as a
  default-constructed pointer does, and reports \<open>use_count\<close> 1 where the
  default-constructed pointer reports 0. Its destructor calls the deleter once, on the
  null pointer, and then deletes the block; the destructor of a default-constructed
  pointer does nothing.
\<close>

theorem null_adoption:
  "\<exists>s'. shared_ptr_adopt nullptr d True s = Inr (\<lparr>ptr = nullptr, cb = Some (next_cb s)\<rparr>, s') \<and>
     heap s' (next_cb s) =
       Some \<lparr>shared_cnt = 1, weak_cnt = 0, variant = cb_separate nullptr d\<rparr> \<and>
     \<not> operator_bool \<lparr>ptr = nullptr, cb = Some (next_cb s)\<rparr> \<and>
     \<not> operator_bool shared_ptr_default \<and>
     use_count \<lparr>ptr = nullptr, cb = Some (next_cb s)\<rparr> s' = Inr 1 \<and>
     use_count shared_ptr_default s' = Inr 0 \<and>
     shared_ptr_dtor \<lparr>ptr = nullptr, cb = Some (next_cb s)\<rparr> s' =
       Inr (s'\<lparr>heap := (heap s')(next_cb s := None),
               trace := trace s' @ [Ev_delete_object (next_cb s) (Deleter_call d nullptr),
                                    Ev_delete_cb (next_cb s)]\<rparr>) \<and>
     shared_ptr_dtor shared_ptr_default s' = Inr s'"
  by (simp add: shared_ptr_adopt_ok use_count_def get_shared_cnt_def shared_ptr_default_def
      operator_bool_def get_def shared_ptr_dtor_eq shared_ptr_dtor_null hook_of_def
      object_of_def)

text \<open>
  C5 at an rvalue argument: \<^verbatim>\<open>make_shared<Y>(std::move(x))\<close> with \<open>x = 42\<close> constructs the
  object from the lvalue, since \<^verbatim>\<open>new cb_inplace<Y>(args...)\<close> names its parameters without
  \<^verbatim>\<open>std::forward\<close>; the value category is not preserved. The other steps are as the
  claim says.
\<close>

theorem make_shared_rvalue_argument:
  "make_shared [(rvalue, 42)] True init =
     Inr (\<lparr>ptr = Storage 0, cb = Some 0\<rparr>,
          init\<lparr>heap := (heap init)(0 \<mapsto>
                 \<lparr>shared_cnt = 1, weak_cnt = 0, variant = cb_inplace [(lvalue, 42)]\<rparr>),
               next_cb := Suc 0,
               trace := [Ev_new 0 (cb_inplace [(lvalue, 42)])]\<rparr>) \<and>
   [(lvalue, 42 :: int)] \<noteq> [(rvalue, 42)]"
  by (simp add: make_shared_steps cb_inplace_get_def init_def)

text \<open>
  C4. In every reachable state \<^verbatim>\<open>lock()\<close> on an observer returns: it never fails. With
  no control block, or with a block whose shared counter is zero, the result is the
  empty pointer (\<open>use_count\<close> 0, converts to false) and nothing changes. Otherwise the
  result has the observer's raw pointer and its block, and the only change is that the
  shared counter of that block is one greater than before the call, as \<open>use_count\<close>
  reports.
\<close>

theorem lock_upgrade:
  assumes "run ops init = Inr s" "i < length (observers s)"
  shows "\<exists>q s'. lock (observers s ! i) s = Inr (q, s') \<and>
     (case wcb (observers s ! i) of
        None \<Rightarrow> q = shared_ptr_default \<and> s' = s
      | Some c \<Rightarrow>
          (\<exists>b. heap s c = Some b \<and>
             (if shared_cnt b = 0 then q = shared_ptr_default \<and> s' = s
              else q = \<lparr>ptr = wptr (observers s ! i), cb = Some c\<rparr> \<and>
                   s' = s\<lparr>heap := (heap s)(c \<mapsto> b\<lparr>shared_cnt := shared_cnt b + 1\<rparr>)\<rparr> \<and>
                   use_count q s = Inr (shared_cnt b) \<and>
                   use_count q s' = Inr (shared_cnt b + 1)))) \<and>
     use_count shared_ptr_default s = Inr 0 \<and> \<not> operator_bool shared_ptr_default"
proof -
  have I: "inv s" using assms(1) by (rule reachable_inv)
  have d: "use_count shared_ptr_default s = Inr 0" "\<not> operator_bool shared_ptr_default"
    by (simp_all add: use_count_def shared_ptr_default_def operator_bool_def get_def)
  show ?thesis
  proof (cases "wcb (observers s ! i)")
    case None
    then show ?thesis using d by (simp add: lock_null)
  next
    case (Some c)
    from inv_observer_block[OF I assms(2) Some] obtain b where b: "heap s c = Some b" by blast
    show ?thesis using d b Some
      by (simp add: lock_eq[OF Some b] use_count_def get_shared_cnt_def)
  qed
qed

theorem lock_upgrade_witness:
  "\<exists>s. run [Sp_adopt (Addr 1) (Deleter 0) True, Wp_from_shared 0] init = Inr s \<and>
       0 < length (observers s) \<and>
       (\<exists>q s'. lock (observers s ! 0) s = Inr (q, s') \<and> use_count q s' = Inr 2 \<and>
          q = \<lparr>ptr = Addr 1, cb = Some 0\<rparr>)"
proof -
  have r: "run [Sp_adopt (Addr 1) (Deleter 0) True, Wp_from_shared 0] init =
     Inr \<lparr>heap = (\<lambda>c. None)(0 \<mapsto> \<lparr>shared_cnt = 1, weak_cnt = 1,
                                   variant = cb_separate (Addr 1) (Deleter 0)\<rparr>),
          next_cb = 1, trace = [Ev_new 0 (cb_separate (Addr 1) (Deleter 0))],
          owners = [\<lparr>ptr = Addr 1, cb = Some 0\<rparr>],
          observers = [\<lparr>wptr = Addr 1, wcb = Some 0\<rparr>], members = []\<rparr>"
    by (simp add: run_defs)
  from lock_upgrade[OF r, of 0] show ?thesis
    unfolding r by (simp add: use_count_def get_shared_cnt_def)
qed



text \<open>
  C8. In every reachable state: \<open>use_count\<close> of a default-constructed pointer is 0. After
  one successful adoption and \<open>n\<close> copies of the adopted pointer, the \<open>n + 1\<close> pointers
  that share the new block each report \<open>n + 1\<close> (with \<open>n = 0\<close>: 1 after the adoption).
  \<open>use_count\<close> of a live pointer with a block is the number of live pointers sharing
  the block; after a copy of it every one of them reports one more, and after its
  destruction every remaining one reports one less.
\<close>

theorem use_count_counts_owners:
  assumes "run ops init = Inr s"
  shows "use_count shared_ptr_default s = Inr 0 \<and>
    (\<exists>s2. run (Sp_adopt p d True # replicate n (Sp_copy (length (owners s)))) s = Inr s2 \<and>
       owners s2 = owners s @ replicate (n + 1) \<lparr>ptr = p, cb = Some (next_cb s)\<rparr> \<and>
       (\<forall>q \<in> set (owners s2). cb q = Some (next_cb s) \<longrightarrow> use_count q s2 = Inr (n + 1))) \<and>
    (\<forall>i < length (owners s). \<forall>c. cb (owners s ! i) = Some c \<longrightarrow>
       use_count (owners s ! i) s = Inr (refs c (owners s)) \<and>
       (\<exists>s'. exec (Sp_copy i) s = Inr s' \<and> owners s' = owners s @ [owners s ! i] \<and>
          (\<forall>q \<in> set (owners s'). cb q = Some c \<longrightarrow>
             use_count q s' = Inr (refs c (owners s) + 1))) \<and>
       (\<exists>s'. exec (Sp_dtor i) s = Inr s' \<and> owners s' = remove_nth i (owners s) \<and>
          (\<forall>q \<in> set (owners s'). cb q = Some c \<longrightarrow>
             use_count q s' = Inr (refs c (owners s) - 1))))"
proof (intro conjI allI impI)
  have I: "inv s" using assms by (rule reachable_inv)
  show "use_count shared_ptr_default s = Inr 0"
    by (simp add: use_count_def shared_ptr_default_def)
  let ?t = "\<lparr>ptr = p, cb = Some (next_cb s)\<rparr>"
  from exec_adopt_steps[OF I, of p d] obtain s1 where
    s1: "exec (Sp_adopt p d True) s = Inr s1" "inv s1" "owners s1 = owners s @ [?t]" by blast
  have m: "length (owners s) < length (owners s1)" using s1(3) by simp
  from run_copies[OF s1(2) m, of n] obtain s2 where
    s2: "run (replicate n (Sp_copy (length (owners s)))) s1 = Inr s2" "inv s2"
    "owners s2 = owners s1 @ replicate n (owners s1 ! length (owners s))" by blast
  have o2: "owners s2 = owners s @ replicate (n + 1) ?t"
    using s2(3) s1(3) by (simp add: replicate_app_Cons_same)
  have "refs (next_cb s) (owners s) = 0"
    using inv_c_fresh(2)[OF invD[OF I, of "next_cb s"]] by simp
  then have r: "refs (next_cb s) (owners s2) = n + 1"
    by (simp add: o2 refs_append refs_replicate refs_Cons)
  have "\<forall>q \<in> set (owners s2). cb q = Some (next_cb s) \<longrightarrow> use_count q s2 = Inr (n + 1)"
    using use_count_owner[OF s2(2)] r by auto
  then show "\<exists>s2. run (Sp_adopt p d True # replicate n (Sp_copy (length (owners s)))) s = Inr s2 \<and>
       owners s2 = owners s @ replicate (n + 1) ?t \<and>
       (\<forall>q \<in> set (owners s2). cb q = Some (next_cb s) \<longrightarrow> use_count q s2 = Inr (n + 1))"
    using s1(1) s2(1) o2 by simp
next
  fix i c
  assume i: "i < length (owners s)" and c: "cb (owners s ! i) = Some c"
  have I: "inv s" using assms by (rule reachable_inv)
  show "use_count (owners s ! i) s = Inr (refs c (owners s))"
    using use_count_owner[OF I nth_mem[OF i] c] .
  from exec_copy_steps[OF I i] obtain s' where
    s': "exec (Sp_copy i) s = Inr s'" "inv s'" "owners s' = owners s @ [owners s ! i]" by blast
  have "refs c (owners s') = refs c (owners s) + 1"
    using s'(3) c by (simp add: refs_append refs_single)
  then have "\<forall>q \<in> set (owners s'). cb q = Some c \<longrightarrow> use_count q s' = Inr (refs c (owners s) + 1)"
    using use_count_owner[OF s'(2)] by auto
  then show "\<exists>s'. exec (Sp_copy i) s = Inr s' \<and> owners s' = owners s @ [owners s ! i] \<and>
          (\<forall>q \<in> set (owners s'). cb q = Some c \<longrightarrow>
             use_count q s' = Inr (refs c (owners s) + 1))"
    using s'(1,3) by blast
  from exec_dtor_steps[OF I i] obtain s'' where
    s'': "exec (Sp_dtor i) s = Inr s''" "inv s''" "owners s'' = remove_nth i (owners s)" by blast
  have "refs c (owners s'') = refs c (owners s) - 1"
    using s''(3) c i by (simp add: refs_remove')
  then have "\<forall>q \<in> set (owners s''). cb q = Some c \<longrightarrow>
       use_count q s'' = Inr (refs c (owners s) - 1)"
    using use_count_owner[OF s''(2)] by auto
  then show "\<exists>s'. exec (Sp_dtor i) s = Inr s' \<and> owners s' = remove_nth i (owners s) \<and>
          (\<forall>q \<in> set (owners s'). cb q = Some c \<longrightarrow>
             use_count q s' = Inr (refs c (owners s) - 1))"
    using s''(1,3) by blast
qed


theorem use_count_counts_owners_witness:
  "\<exists>s. run [Sp_adopt (Addr 1) (Deleter 0) True, Sp_copy 0] init = Inr s \<and>
     use_count shared_ptr_default s = Inr 0 \<and>
     (\<exists>s2. run [Sp_adopt (Addr 2) (Deleter 1) True, Sp_copy 2] s = Inr s2 \<and>
        use_count (owners s2 ! 2) s2 = Inr 2 \<and> use_count (owners s2 ! 3) s2 = Inr 2) \<and>
     0 < length (owners s) \<and> cb (owners s ! 0) = Some 0 \<and>
     use_count (owners s ! 0) s = Inr 2 \<and>
     (\<exists>s'. exec (Sp_copy 0) s = Inr s' \<and> use_count (owners s' ! 2) s' = Inr 3) \<and>
     (\<exists>s'. exec (Sp_dtor 0) s = Inr s' \<and> use_count (owners s' ! 0) s' = Inr 1)"
proof -
  have r: "run [Sp_adopt (Addr 1) (Deleter 0) True, Sp_copy 0] init =
     Inr \<lparr>heap = (\<lambda>c. None)(0 \<mapsto> \<lparr>shared_cnt = 2, weak_cnt = 0,
                                   variant = cb_separate (Addr 1) (Deleter 0)\<rparr>),
          next_cb = 1, trace = [Ev_new 0 (cb_separate (Addr 1) (Deleter 0))],
          owners = [\<lparr>ptr = Addr 1, cb = Some 0\<rparr>, \<lparr>ptr = Addr 1, cb = Some 0\<rparr>],
          observers = [], members = []\<rparr>"
    by (simp add: run_defs numeral_2_eq_2)
  from use_count_counts_owners[OF r, of "Addr 2" "Deleter 1" 1] show ?thesis
    unfolding r by (simp add: run_defs use_count_def numeral_2_eq_2)
qed




text \<open>
  C1. Take any program over owning and observing pointers, those that lie in managed
  objects included, and the state \<open>s\<close> it ends with, by return or by an error. For
  every block allocated so far the trace holds one allocation, and the destruction
  hook of the block has run exactly once if its shared counter is zero or the block is
  gone, and not at all otherwise; no hook has run for an identity not yet allocated.
  Where the program returned: the shared counter of a block is the number of live
  owning pointers on it; any further statement, however it ends, adds the hook of a
  block exactly when it takes the shared counter of the block from a positive value to
  zero; and for a live owner of block \<open>c\<close> no hook of \<open>c\<close> has run, and its destructor,
  with all the destructors the hook runs in turn, runs the hook of \<open>c\<close> once if the
  counter is 1 and not at all otherwise. In \<open>s\<close>, \<^verbatim>\<open>~shared_ptr\<close> of any pointer adds the
  hook of a block exactly when it takes its shared counter from a positive value to
  zero, and \<^verbatim>\<open>~weak_ptr\<close> adds no hook. The hook is the stored deleter on the pointer
  given at adoption, or the destructor of the object in the storage of the block.
\<close>

theorem destruction_hook_runs_once:
  assumes "final (program acts init) = s"
  shows
    "(\<forall>c<next_cb s. \<exists>v. news c (trace s) = [v] \<and>
        hooks_run c (trace s) = (if shared_of (heap s) c = 0 then [hook_of c v] else [])) \<and>
     (\<forall>c. next_cb s \<le> c \<longrightarrow> hooks_run c (trace s) = []) \<and>
     (program acts init = Inr s \<longrightarrow>
        (\<forall>c. shared_of (heap s) c = refs c (owners s @ stored_owners s)) \<and>
        (\<forall>x. \<forall>c<next_cb s.
           hooks_run c (trace (final (perform x s))) = hooks_run c (trace s) @
             (if 0 < shared_of (heap s) c \<and> shared_of (heap (final (perform x s))) c = 0
              then [hook_of c (hd (news c (trace s)))] else [])) \<and>
        (\<forall>i<length (owners s). \<forall>c. cb (owners s ! i) = Some c \<longrightarrow>
           hooks_run c (trace s) = [] \<and>
           hooks_run c (trace (final (shared_ptr_dtor (owners s ! i) s))) =
             (if shared_of (heap s) c = 1 then [hook_of c (hd (news c (trace s)))] else []))) \<and>
     (\<forall>q c. hooks_run c (trace (final (shared_ptr_dtor q s))) = hooks_run c (trace s) @
        (if 0 < shared_of (heap s) c \<and> shared_of (heap (final (shared_ptr_dtor q s))) c = 0
         then [hook_of c (hd (news c (trace s)))] else [])) \<and>
     (\<forall>w c. hooks_run c (trace (final (weak_ptr_dtor w s))) = hooks_run c (trace s)) \<and>
     (\<exists>s1. exec (Sp_adopt p d True) s = Inr s1 \<and>
        news (next_cb s) (trace s1) = [cb_separate p d] \<and>
        hook_of (next_cb s) (cb_separate p d) = Deleter_call d p) \<and>
     (\<exists>s1. exec (Sp_make args True) s = Inr s1 \<and>
        news (next_cb s) (trace s1) = [cb_inplace (map named args)] \<and>
        hook_of (next_cb s) (cb_inplace (map named args)) = Destructor_call (Storage (next_cb s)))"
proof (intro conjI allI impI)
  note P = program_ends_well[OF kept_init, of acts, unfolded assms]
  have H: "hooks_ok s" using P by simp
  show "\<exists>v. news c (trace s) = [v] \<and>
        hooks_run c (trace s) = (if shared_of (heap s) c = 0 then [hook_of c v] else [])"
    if "c < next_cb s" for c
  proof -
    have l: "length (news c (trace s)) = 1" and
      h: "hooks_run c (trace s) =
          (if shared_of (heap s) c = 0 then [hook_of c (hd (news c (trace s)))] else [])"
      using hooks_okD[OF H, of c] that by (simp_all add: hooked_def)
    from l obtain v where "news c (trace s) = [v]"
      by (cases "news c (trace s)") auto
    then show ?thesis using h by simp
  qed
  show "hooks_run c (trace s) = []" if "next_cb s \<le> c" for c
    using hooks_ok_fresh(3)[OF H that] .
  show "shared_of (heap s) c = refs c (owners s @ stored_owners s)"
    if "program acts init = Inr s" for c
    using P that countedD[of "owners s" s c] by (simp add: kept_def)
  show "hooks_run c (trace (final (perform x s))) = hooks_run c (trace s) @
          (if 0 < shared_of (heap s) c \<and> shared_of (heap (final (perform x s))) c = 0
           then [hook_of c (hd (news c (trace s)))] else [])"
    if "program acts init = Inr s" "c < next_cb s" for x c
  proof -
    have k: "kept s" using P that(1) by simp
    have "hooks_ok (final (perform x s)) \<and> extends s (final (perform x s))"
      using perform_ends_well[OF k, of x]
      by (cases "perform x s") (auto simp: ends_well_def kept_def)
    then show ?thesis using hooks_step[OF H _ _ that(2)] by simp
  qed
  show D: "hooks_run c (trace (final (shared_ptr_dtor q s))) = hooks_run c (trace s) @
        (if 0 < shared_of (heap s) c \<and> shared_of (heap (final (shared_ptr_dtor q s))) c = 0
         then [hook_of c (hd (news c (trace s)))] else [])" for q c
    using hooks_step_dtor[OF H] dtor_hooks_ok(1)[OF H, of q] by simp
  {
    fix i c
    assume r: "program acts init = Inr s" and i: "i < length (owners s)"
      and c: "cb (owners s ! i) = Some c"
    have k: "kept s" using P r by simp
    from kept_owner_block[OF k i c] obtain b where b: "heap s c = Some b" "0 < shared_cnt b"
      by blast
    have lt: "c < next_cb s" using hooks_okD[OF H, of c] b by (simp add: hooked_def)
    show e: "hooks_run c (trace s) = []"
      using hooks_okD[OF H, of c] b by (simp add: hooked_def shared_of_def)
    let ?f = "final (shared_ptr_dtor (owners s ! i) s)"
    have nv: "news c (trace s) = [variant b]"
      using hooks_okD[OF H, of c] b by (simp add: hooked_def)
    show "hooks_run c (trace ?f) =
            (if shared_of (heap s) c = 1 then [hook_of c (hd (news c (trace s)))] else [])"
    proof (cases "shared_cnt b = 1")
      case True
      from hooks_run_prefix[OF last_owner_calls_hook[OF H c b(1) True], of c]
      have "hooks_run c (trace ?f) \<noteq> []" using e by (auto simp: hooks_run_append)
      then show ?thesis using D[of c "owners s ! i"] e True b
        by (auto simp: shared_of_def split: if_splits)
    next
      case False
      have "shared_ptr_dtor (owners s ! i) s =
              Inr (s\<lparr>heap := (heap s)(c \<mapsto> b\<lparr>shared_cnt := shared_cnt b - 1\<rparr>)\<rparr>)"
        using False b
        by (simp add: shared_ptr_dtor_unfold[OF c b] reread_def get_shared_cnt_def)
      then show ?thesis using e False b by (simp add: shared_of_def)
    qed
  }
  show "hooks_run c (trace (final (weak_ptr_dtor w s))) = hooks_run c (trace s)" for w c
    by (auto simp: weak_ptr_dtor_def release_weak_def delete_cb_def Let_def hooks_run_append
        split: option.splits)
  have f: "news (next_cb s) (trace s) = []"
    using hooks_ok_fresh(2)[OF H order_refl] .
  show "\<exists>s1. exec (Sp_adopt p d True) s = Inr s1 \<and>
        news (next_cb s) (trace s1) = [cb_separate p d] \<and>
        hook_of (next_cb s) (cb_separate p d) = Deleter_call d p"
    using f by (simp add: sp_adopt_def new_owner_def shared_ptr_adopt_ok news_append hook_of_def)
  show "\<exists>s1. exec (Sp_make args True) s = Inr s1 \<and>
        news (next_cb s) (trace s1) = [cb_inplace (map named args)] \<and>
        hook_of (next_cb s) (cb_inplace (map named args)) = Destructor_call (Storage (next_cb s))"
    using f by (simp add: sp_make_def new_owner_def make_shared_steps news_append hook_of_def
        named_eq cb_inplace_get_def)
qed

theorem destruction_hook_runs_once_witness:
  "\<exists>s s'.
     program [Stmt (Sp_make [] True), Stmt (Wp_from_shared 0), Wp_store 0 0] init = Inr s \<and>
     final (program [Stmt (Sp_make [] True), Stmt (Wp_from_shared 0), Wp_store 0 0] init) = s \<and>
     0 < next_cb s \<and> 0 < length (owners s) \<and> cb (owners s ! 0) = Some 0 \<and>
     members s = [(0, Weak_member \<lparr>wptr = Storage 0, wcb = Some 0\<rparr>)] \<and>
     news 0 (trace s) = [cb_inplace []] \<and>
     shared_of (heap s) 0 = 1 \<and> hooks_run 0 (trace s) = [] \<and>
     perform (Stmt (Sp_dtor 0)) s = Inl (use_after_free, s') \<and>
     shared_of (heap s') 0 = 0 \<and>
     hooks_run 0 (trace s') = [Destructor_call (Storage 0)] \<and>
     hooks_run 0 (trace (final (shared_ptr_dtor (owners s ! 0) s))) =
       [Destructor_call (Storage 0)]"
proof -
  let ?acts = "[Stmt (Sp_make [] True), Stmt (Wp_from_shared 0), Wp_store 0 0]"
  let ?S = "\<lparr>heap = (\<lambda>c. None)(0 \<mapsto> \<lparr>shared_cnt = 1, weak_cnt = 1, variant = cb_inplace []\<rparr>),
          next_cb = 1, trace = [Ev_new 0 (cb_inplace [])],
          owners = [\<lparr>ptr = Storage 0, cb = Some 0\<rparr>],
          observers = [\<lparr>wptr = nullptr, wcb = None\<rparr>],
          members = [(0, Weak_member \<lparr>wptr = Storage 0, wcb = Some 0\<rparr>)]\<rparr>"
  let ?S' = "\<lparr>heap = ((\<lambda>c. None)(0 \<mapsto> \<lparr>shared_cnt = 0, weak_cnt = 0, variant = cb_inplace []\<rparr>))
                    (0 := None),
          next_cb = 1,
          trace = [Ev_new 0 (cb_inplace []), Ev_delete_object 0 (Destructor_call (Storage 0)),
                   Ev_delete_cb 0],
          owners = [\<lparr>ptr = Storage 0, cb = Some 0\<rparr>],
          observers = [\<lparr>wptr = nullptr, wcb = None\<rparr>],
          members = []\<rparr>"
  have r: "program ?acts init = Inr ?S"
    by (simp add: program_defs)
  have f: "final (program ?acts init) = ?S"
    unfolding r by (simp add: final_def)
  have d: "perform (Stmt (Sp_dtor 0)) ?S = Inl (use_after_free, ?S')"
    by (simp add: program_defs)
  have n: "0 < next_cb ?S" by simp
  note step = destruction_hook_runs_once[OF f, THEN conjunct2, THEN conjunct2, THEN conjunct1,
      THEN mp, OF r, THEN conjunct2, THEN conjunct1, THEN spec[where x="Stmt (Sp_dtor 0)"],
      THEN spec[where x="0::nat"], THEN mp, OF n]
  have "hooks_run 0 (trace ?S') = [Destructor_call (Storage 0)]"
    using step unfolding d by (simp add: final_def shared_of_def hook_of_def cb_inplace_get_def)
  then show ?thesis
    unfolding r by (simp add: program_defs)
qed

text \<open>
  C2 at an object that observes itself: \<^verbatim>\<open>auto p = make_shared<Node>(); p->self = p;\<close>
  and then the destructor of \<open>p\<close>. \<^verbatim>\<open>release_shared()\<close> takes the shared counter to zero
  and \<^verbatim>\<open>delete_object()\<close> runs \<^verbatim>\<open>~Node()\<close>, which destroys \<^verbatim>\<open>self\<close>; \<^verbatim>\<open>~weak_ptr()\<close> takes
  the weak counter to zero, finds both counters zero and deletes the block, inside
  the hook: in the state \<open>sh'\<close> in which the destructors of the members return, the
  block is gone. Back in \<^verbatim>\<open>~shared_ptr()\<close> the counters are read through \<^verbatim>\<open>cb\<close>, from
  the block that is gone: the block was not deleted after the hook, and the read is a
  use after free (a second \<^verbatim>\<open>delete cb\<close> follows if the freed memory still reads as
  zero). The same happens with an adopted object, and with a parent that owns a child
  that observes the parent.
\<close>

theorem control_block_freed_inside_hook:
  "(\<exists>s sh sh'.
      program [Stmt (Sp_make [] True), Stmt (Wp_from_shared 0), Wp_store 0 0] init = Inr s \<and>
      owners s = [\<lparr>ptr = Storage 0, cb = Some 0\<rparr>] \<and>
      members_of 0 s = [Weak_member \<lparr>wptr = Storage 0, wcb = Some 0\<rparr>] \<and>
      heap s 0 = Some \<lparr>shared_cnt = 1, weak_cnt = 1, variant = cb_inplace []\<rparr> \<and>
      sh = s\<lparr>heap := (heap s)(0 \<mapsto> \<lparr>shared_cnt = 0, weak_cnt = 1, variant = cb_inplace []\<rparr>),
             trace := trace s @ [Ev_delete_object 0 (Destructor_call (Storage 0))],
             members := []\<rparr> \<and>
      destroy_members (rev (members_of 0 s)) sh = Inr sh' \<and>
      heap sh' 0 = None \<and> trace sh' = trace sh @ [Ev_delete_cb 0] \<and>
      shared_ptr_dtor (owners s ! 0) s = Inl (use_after_free, sh') \<and>
      program [Stmt (Sp_make [] True), Stmt (Wp_from_shared 0), Wp_store 0 0,
               Stmt (Sp_dtor 0)] init = Inl (use_after_free, sh') \<and>
      trace sh' = [Ev_new 0 (cb_inplace []), Ev_delete_object 0 (Destructor_call (Storage 0)),
                   Ev_delete_cb 0]) \<and>
   (\<exists>s'. program [Stmt (Sp_adopt (Addr 1) default_delete True), Stmt (Wp_from_shared 0),
               Wp_store 0 0, Stmt (Sp_dtor 0)] init = Inl (use_after_free, s') \<and>
      trace s' = [Ev_new 0 (cb_separate (Addr 1) default_delete),
                  Ev_delete_object 0 (Deleter_call default_delete (Addr 1)),
                  Ev_delete_cb 0] \<and>
      heap s' 0 = None) \<and>
   (\<exists>s'. program [Stmt (Sp_make [] True), Stmt (Sp_make [] True), Stmt (Wp_from_shared 0),
               Wp_store 0 1, Sp_store 1 0, Stmt (Sp_dtor 0)] init = Inl (use_after_free, s') \<and>
      trace s' = [Ev_new 0 (cb_inplace []), Ev_new 1 (cb_inplace []),
                  Ev_delete_object 0 (Destructor_call (Storage 0)),
                  Ev_delete_object 1 (Destructor_call (Storage 1)),
                  Ev_delete_cb 0, Ev_delete_cb 1] \<and>
      heap s' 0 = None)"
  by (simp add: program_defs)

end
